theory Spec2Isabelle
  imports Complex_Main
begin

section \<open>The scalar autograd engine of \<^verbatim>\<open>micrograd/engine.py\<close>\<close>

text \<open>
  A \<^verbatim>\<open>Value\<close> is a Python object with identity: closures and operand sets refer to
  it by reference, and the backward pass mutates its \<^verbatim>\<open>grad\<close> in place. The model is
  an explicit store: a heap is the list of all \<^verbatim>\<open>Value\<close> objects made so far, the
  address of an object is its index, and creating an object appends it.

  Numbers are idealised: Python's \<^verbatim>\<open>int\<close> and \<^verbatim>\<open>float\<close> both become \<open>real\<close>, so
  rounding, overflow (also the \<^verbatim>\<open>OverflowError\<close> of \<^verbatim>\<open>math.exp\<close> and of \<^verbatim>\<open>**\<close>),
  \<^verbatim>\<open>inf\<close> and \<^verbatim>\<open>nan\<close> are outside the model.
\<close>

subsection \<open>Data model\<close>

type_synonym addr = nat

datatype error =
    AssertionError       \<comment> \<open>the \<^verbatim>\<open>assert\<close> of \<^verbatim>\<open>__pow__\<close>\<close>
  | ZeroDivisionError    \<comment> \<open>Python's \<^verbatim>\<open>0 ** p\<close> with \<^verbatim>\<open>p < 0\<close>\<close>
  | NonReal              \<comment> \<open>\<^verbatim>\<open>x ** p\<close> with \<^verbatim>\<open>x < 0\<close> and fractional \<^verbatim>\<open>p\<close>: Python
                             yields a complex number, which the real-valued model cannot hold\<close>

text \<open>
  The closure stored in \<^verbatim>\<open>_backward\<close>, as the operation that made it together with
  the variables it captured: the operand(s), the result \<^verbatim>\<open>out\<close>, and for \<^verbatim>\<open>tanh\<close>,
  \<^verbatim>\<open>sigmoid\<close> and \<^verbatim>\<open>__pow__\<close> the number captured (\<^verbatim>\<open>t\<close>, \<^verbatim>\<open>s\<close>, \<^verbatim>\<open>other\<close>).
\<close>

datatype closure =
    NoOp                       \<comment> \<open>\<^verbatim>\<open>lambda: None\<close>\<close>
  | BwTanh addr real addr      \<comment> \<open>\<^verbatim>\<open>self\<close>, \<^verbatim>\<open>t\<close>, \<^verbatim>\<open>out\<close>\<close>
  | BwRelu addr addr           \<comment> \<open>\<^verbatim>\<open>self\<close>, \<^verbatim>\<open>out\<close>\<close>
  | BwSigmoid addr real addr   \<comment> \<open>\<^verbatim>\<open>self\<close>, \<^verbatim>\<open>s\<close>, \<^verbatim>\<open>out\<close>\<close>
  | BwExp addr addr            \<comment> \<open>\<^verbatim>\<open>self\<close>, \<^verbatim>\<open>out\<close>\<close>
  | BwAdd addr addr addr       \<comment> \<open>\<^verbatim>\<open>self\<close>, \<^verbatim>\<open>other\<close>, \<^verbatim>\<open>out\<close>\<close>
  | BwPow addr real addr       \<comment> \<open>\<^verbatim>\<open>self\<close>, \<^verbatim>\<open>other\<close>, \<^verbatim>\<open>out\<close>\<close>
  | BwMul addr addr addr       \<comment> \<open>\<^verbatim>\<open>self\<close>, \<^verbatim>\<open>other\<close>, \<^verbatim>\<open>out\<close>\<close>

text \<open>
  The tag \<^verbatim>\<open>_op\<close> is a string; \<^verbatim>\<open>__pow__\<close> formats its exponent into it
  (\<^verbatim>\<open>f"**{other}"\<close>), which is kept here as the exponent itself.
\<close>

datatype optag = Tag string | PowTag real

text \<open>
  The fields of \<^verbatim>\<open>Value\<close>. \<^verbatim>\<open>_prev\<close> is a Python set of at most two objects, hashed
  by identity: it is kept as the list of its distinct elements, and the order in which
  Python iterates it, which the program does not control, is a parameter of the
  traversal (see \<open>iter_prev\<close>).
\<close>

record node =
  data :: real
  grad :: real
  backward_fn :: closure
  prev :: "addr list"
  op_tag :: optag
  label :: string

type_synonym heap = "node list"

text \<open>What an operator receives as its right argument: a number or a \<^verbatim>\<open>Value\<close>.\<close>

datatype operand = Num real | Ref addr

text \<open>
  Any Python object, as \<^verbatim>\<open>__pow__\<close> may receive one for its exponent: a number
  (\<^verbatim>\<open>float\<close> or \<^verbatim>\<open>int\<close>), a \<^verbatim>\<open>Value\<close>, or anything else.
\<close>

datatype pyobj = Number real | ValueRef addr | OtherObj

subsection \<open>Construction\<close>

text \<open>
  \<^verbatim>\<open>Value.__init__\<close>: a new object with gradient 0 and the do-nothing closure; its
  address is the next free index.
\<close>

definition Value_init :: "real \<Rightarrow> addr list \<Rightarrow> optag \<Rightarrow> string \<Rightarrow> heap \<Rightarrow> addr \<times> heap" where
  "Value_init d children tag lbl h =
     (length h,
      h @ [\<lparr>data = d, grad = 0, backward_fn = NoOp, prev = remdups children,
            op_tag = tag, label = lbl\<rparr>])"

text \<open>\<^verbatim>\<open>Value(c)\<close> with the default arguments.\<close>

definition leaf :: "real \<Rightarrow> heap \<Rightarrow> addr \<times> heap" where
  "leaf c h = Value_init c [] (Tag '''') '''' h"

text \<open>\<^verbatim>\<open>out._backward = _backward\<close>\<close>

definition set_backward :: "addr \<Rightarrow> closure \<Rightarrow> heap \<Rightarrow> heap" where
  "set_backward out c h = h[out := (h ! out)\<lparr>backward_fn := c\<rparr>]"

text \<open>\<^verbatim>\<open>other if isinstance(other, Value) else Value(other)\<close>\<close>

fun wrap :: "operand \<Rightarrow> heap \<Rightarrow> addr \<times> heap" where
  "wrap (Ref a) h = (a, h)"
| "wrap (Num c) h = leaf c h"

subsection \<open>Python's power on numbers\<close>

definition is_integral :: "real \<Rightarrow> bool" where
  "is_integral p = (of_int \<lfloor>p\<rfloor> = p)"

text \<open>
  \<^verbatim>\<open>x ** p\<close> on Python numbers: anything to the power 0 is 1; 0 to a negative power
  raises; a negative base with a fractional exponent gives a complex number.
\<close>

definition py_pow :: "real \<Rightarrow> real \<Rightarrow> error + real" where
  "py_pow x p =
     (if p = 0 then Inr 1
      else if x = 0 then (if p < 0 then Inl ZeroDivisionError else Inr 0)
      else if is_integral p then Inr (x powi \<lfloor>p\<rfloor>)
      else if x < 0 then Inl NonReal
      else Inr (x powr p))"

subsection \<open>The backward closures\<close>

text \<open>\<^verbatim>\<open>a.grad += d\<close>\<close>

definition add_grad :: "addr \<Rightarrow> real \<Rightarrow> heap \<Rightarrow> heap" where
  "add_grad a d h = h[a := (h ! a)\<lparr>grad := grad (h ! a) + d\<rparr>]"

text \<open>
  Calling a stored closure. Each reads the heap as it is at the time of the call; the
  two statements of the closures of \<^verbatim>\<open>__add__\<close> and \<^verbatim>\<open>__mul__\<close> run one after the
  other, which matters when \<^verbatim>\<open>self\<close> and \<^verbatim>\<open>other\<close> are the same object. Only the
  closure of \<^verbatim>\<open>__pow__\<close> can raise, from \<^verbatim>\<open>self.data**(other - 1)\<close>.
\<close>

fun run_closure :: "closure \<Rightarrow> heap \<Rightarrow> error + heap" where
  "run_closure NoOp h = Inr h"
| "run_closure (BwTanh self t out) h =
     Inr (add_grad self ((1 - t\<^sup>2) * grad (h ! out)) h)"
| "run_closure (BwRelu self out) h =
     Inr (add_grad self ((if data (h ! out) > 0 then 1 else 0) * grad (h ! out)) h)"
| "run_closure (BwSigmoid self s out) h =
     Inr (add_grad self ((s * (1 - s)) * grad (h ! out)) h)"
| "run_closure (BwExp self out) h =
     Inr (add_grad self (data (h ! out) * grad (h ! out)) h)"
| "run_closure (BwAdd self other out) h =
     (let h1 = add_grad self (1 * grad (h ! out)) h
      in Inr (add_grad other (1 * grad (h1 ! out)) h1))"
| "run_closure (BwPow self other out) h =
     (case py_pow (data (h ! self)) (other - 1) of
        Inl e \<Rightarrow> Inl e
      | Inr q \<Rightarrow> Inr (add_grad self (other * q * grad (h ! out)) h))"
| "run_closure (BwMul self other out) h =
     (let h1 = add_grad self (data (h ! other) * grad (h ! out)) h
      in Inr (add_grad other (data (h1 ! self) * grad (h1 ! out)) h1))"

subsection \<open>The operations\<close>

text \<open>
  The methods \<^verbatim>\<open>tanh\<close>, \<^verbatim>\<open>relu\<close>, \<^verbatim>\<open>sigmoid\<close>, \<^verbatim>\<open>exp\<close>, \<^verbatim>\<open>__add__\<close>,
  \<^verbatim>\<open>__pow__\<close>, \<^verbatim>\<open>__mul__\<close> and the operators defined from them, in the order of the
  source. Each takes \<^verbatim>\<open>self\<close>, its argument and the heap, and returns the address of
  the new object with the heap that holds it.
\<close>

definition tanh_v :: "addr \<Rightarrow> heap \<Rightarrow> addr \<times> heap" where
  "tanh_v self h =
     (let x = data (h ! self);
          t = (exp (2 * x) - 1) / (exp (2 * x) + 1);
          (out, h1) = Value_init t [self] (Tag ''tanh'') '''' h
      in (out, set_backward out (BwTanh self t out) h1))"

definition relu :: "addr \<Rightarrow> heap \<Rightarrow> addr \<times> heap" where
  "relu self h =
     (let (out, h1) = Value_init (if data (h ! self) < 0 then 0 else data (h ! self))
                        [self] (Tag ''ReLU'') '''' h
      in (out, set_backward out (BwRelu self out) h1))"

definition sigmoid :: "addr \<Rightarrow> heap \<Rightarrow> addr \<times> heap" where
  "sigmoid self h =
     (let x = - 1 * data (h ! self);
          s = 1 / (1 + exp x);
          (out, h1) = Value_init s [self] (Tag ''sigmoid'') '''' h
      in (out, set_backward out (BwSigmoid self s out) h1))"

definition exp_v :: "addr \<Rightarrow> heap \<Rightarrow> addr \<times> heap" where
  "exp_v self h =
     (let x = data (h ! self);
          (out, h1) = Value_init (exp x) [self] (Tag ''exp'') '''' h
      in (out, set_backward out (BwExp self out) h1))"

definition add_v :: "addr \<Rightarrow> operand \<Rightarrow> heap \<Rightarrow> addr \<times> heap" where
  "add_v self other h =
     (let (other, h1) = wrap other h;
          (out, h2) = Value_init (data (h1 ! self) + data (h1 ! other))
                        [self, other] (Tag ''+'') '''' h1
      in (out, set_backward out (BwAdd self other out) h2))"

text \<open>
  \<^verbatim>\<open>__pow__\<close>: the \<^verbatim>\<open>assert\<close> comes first, before anything is created; then
  \<^verbatim>\<open>self.data**other\<close> may raise, still before the new object exists.
\<close>

definition pow_v :: "addr \<Rightarrow> pyobj \<Rightarrow> heap \<Rightarrow> (error + addr) \<times> heap" where
  "pow_v self other h =
     (case other of
        Number p \<Rightarrow>
          (case py_pow (data (h ! self)) p of
             Inl e \<Rightarrow> (Inl e, h)
           | Inr d \<Rightarrow>
               (let (out, h1) = Value_init d [self] (PowTag p) '''' h
                in (Inr out, set_backward out (BwPow self p out) h1)))
      | _ \<Rightarrow> (Inl AssertionError, h))"

definition mul_v :: "addr \<Rightarrow> operand \<Rightarrow> heap \<Rightarrow> addr \<times> heap" where
  "mul_v self other h =
     (let (other, h1) = wrap other h;
          (out, h2) = Value_init (data (h1 ! self) * data (h1 ! other))
                        [self, other] (Tag ''*'') '''' h1
      in (out, set_backward out (BwMul self other out) h2))"

text \<open>\<^verbatim>\<open>__rmul__\<close> and \<^verbatim>\<open>__radd__\<close>: \<^verbatim>\<open>self * other\<close>, \<^verbatim>\<open>self + other\<close>.\<close>

definition rmul_v :: "addr \<Rightarrow> operand \<Rightarrow> heap \<Rightarrow> addr \<times> heap" where
  "rmul_v self other h = mul_v self other h"

definition radd_v :: "addr \<Rightarrow> operand \<Rightarrow> heap \<Rightarrow> addr \<times> heap" where
  "radd_v self other h = add_v self other h"

text \<open>\<^verbatim>\<open>__neg__\<close>: \<^verbatim>\<open>self * -1\<close>\<close>

definition neg_v :: "addr \<Rightarrow> heap \<Rightarrow> addr \<times> heap" where
  "neg_v self h = mul_v self (Num (- 1)) h"

text \<open>
  \<^verbatim>\<open>-other\<close> is \<^verbatim>\<open>__neg__\<close> when \<^verbatim>\<open>other\<close> is a \<^verbatim>\<open>Value\<close> and the negated number
  otherwise.
\<close>

fun negate_operand :: "operand \<Rightarrow> heap \<Rightarrow> operand \<times> heap" where
  "negate_operand (Ref b) h = (let (n, h1) = neg_v b h in (Ref n, h1))"
| "negate_operand (Num c) h = (Num (- c), h)"

text \<open>\<^verbatim>\<open>__sub__\<close>: \<^verbatim>\<open>self + (-other)\<close>\<close>

definition sub_v :: "addr \<Rightarrow> operand \<Rightarrow> heap \<Rightarrow> addr \<times> heap" where
  "sub_v self other h = (let (m, h1) = negate_operand other h in add_v self m h1)"

text \<open>
  \<^verbatim>\<open>__rsub__\<close>, which Python calls for \<^verbatim>\<open>other - self\<close> when \<^verbatim>\<open>other\<close> is not a
  \<^verbatim>\<open>Value\<close>. Its body is that of \<^verbatim>\<open>__sub__\<close>: \<^verbatim>\<open>self + (-other)\<close>.
\<close>

definition rsub_v :: "addr \<Rightarrow> operand \<Rightarrow> heap \<Rightarrow> addr \<times> heap" where
  "rsub_v self other h = (let (m, h1) = negate_operand other h in add_v self m h1)"

text \<open>
  \<^verbatim>\<open>__truediv__\<close>: \<^verbatim>\<open>self * other**-1\<close>. The power is that of \<^verbatim>\<open>Value\<close> when
  \<^verbatim>\<open>other\<close> is one and Python's own otherwise; either may raise.
\<close>

fun truediv_v :: "addr \<Rightarrow> operand \<Rightarrow> heap \<Rightarrow> (error + addr) \<times> heap" where
  "truediv_v self (Ref b) h =
     (case pow_v b (Number (- 1)) h of
        (Inl e, h1) \<Rightarrow> (Inl e, h1)
      | (Inr p, h1) \<Rightarrow> (let (out, h2) = mul_v self (Ref p) h1 in (Inr out, h2)))"
| "truediv_v self (Num c) h =
     (case py_pow c (- 1) of
        Inl e \<Rightarrow> (Inl e, h)
      | Inr q \<Rightarrow> (let (out, h1) = mul_v self (Num q) h in (Inr out, h1)))"

text \<open>
  \<^verbatim>\<open>__rtruediv__\<close>: \<^verbatim>\<open>other * self**-1\<close>. A number on the left of \<^verbatim>\<open>*\<close> hands over
  to \<^verbatim>\<open>__rmul__\<close> of the \<^verbatim>\<open>Value\<close> on the right.
\<close>

fun rtruediv_v :: "addr \<Rightarrow> operand \<Rightarrow> heap \<Rightarrow> (error + addr) \<times> heap" where
  "rtruediv_v self (Num c) h =
     (case pow_v self (Number (- 1)) h of
        (Inl e, h1) \<Rightarrow> (Inl e, h1)
      | (Inr p, h1) \<Rightarrow> (let (out, h2) = rmul_v p (Num c) h1 in (Inr out, h2)))"
| "rtruediv_v self (Ref b) h =
     (case pow_v self (Number (- 1)) h of
        (Inl e, h1) \<Rightarrow> (Inl e, h1)
      | (Inr p, h1) \<Rightarrow> (let (out, h2) = mul_v b (Ref p) h1 in (Inr out, h2)))"

subsection \<open>The backward pass\<close>

text \<open>
  The order in which \<^verbatim>\<open>for child in v._prev\<close> meets the operands. A set of at most
  two objects is iterated in one of two orders; \<open>flip v\<close> says which one at the object
  \<open>v\<close>.
\<close>

definition iter_prev :: "(addr \<Rightarrow> bool) \<Rightarrow> heap \<Rightarrow> addr \<Rightarrow> addr list" where
  "iter_prev flip h v = (if flip v then rev (prev (h ! v)) else prev (h ! v))"

text \<open>
  \<^verbatim>\<open>buildTopo\<close>, with the variables \<^verbatim>\<open>visited\<close> and \<^verbatim>\<open>topo\<close> of the enclosing
  \<^verbatim>\<open>backward\<close> passed as state. The recursion is bounded by a depth: the first argument
  is the number of nested calls of \<^verbatim>\<open>buildTopo\<close> still allowed, and \<open>None\<close> says that
  the traversal needed more. \<open>visit_children\<close> is the \<^verbatim>\<open>for\<close> loop.
\<close>

fun buildTopo ::
    "nat \<Rightarrow> heap \<Rightarrow> (addr \<Rightarrow> bool) \<Rightarrow> addr \<Rightarrow> addr set \<times> addr list \<Rightarrow> (addr set \<times> addr list) option"
  and visit_children ::
    "nat \<Rightarrow> heap \<Rightarrow> (addr \<Rightarrow> bool) \<Rightarrow> addr list \<Rightarrow> addr set \<times> addr list \<Rightarrow> (addr set \<times> addr list) option"
where
  "buildTopo 0 h flip v s = None"
| "buildTopo (Suc n) h flip v (visited, topo) =
     (if v \<notin> visited then
        (case visit_children n h flip (iter_prev flip h v) (insert v visited, topo) of
           None \<Rightarrow> None
         | Some (visited', topo') \<Rightarrow> Some (visited', topo' @ [v]))
      else Some (visited, topo))"
| "visit_children n h flip [] s = Some s"
| "visit_children n h flip (child # rest) s =
     (case buildTopo n h flip child s of
        None \<Rightarrow> None
      | Some s' \<Rightarrow> visit_children n h flip rest s')"

text \<open>
  \<^verbatim>\<open>for node in reversed(topo): node._backward()\<close>. The closure is read from the
  object when its turn comes. A closure that raises ends the loop, and the exception
  leaves the heap as it was before that call. The last component records the objects
  whose closure has been called, in order: it is not a variable of the program.
\<close>

fun run_closures :: "addr list \<Rightarrow> heap \<Rightarrow> addr list \<Rightarrow> (error + unit) \<times> heap \<times> addr list" where
  "run_closures [] h called = (Inr (), h, called)"
| "run_closures (n # ns) h called =
     (case run_closure (backward_fn (h ! n)) h of
        Inl e \<Rightarrow> (Inl e, h, called @ [n])
      | Inr h' \<Rightarrow> run_closures ns h' (called @ [n]))"

text \<open>\<^verbatim>\<open>self.grad = 1.0\<close>\<close>

definition seed :: "addr \<Rightarrow> heap \<Rightarrow> heap" where
  "seed self h = h[self := (h ! self)\<lparr>grad := 1\<rparr>]"

text \<open>
  \<^verbatim>\<open>backward\<close>: the outcome of the loop, the heap afterwards and the closures called;
  \<open>None\<close> when \<open>depth\<close> nested calls do not suffice for \<^verbatim>\<open>buildTopo\<close>.
\<close>

definition backward ::
    "nat \<Rightarrow> (addr \<Rightarrow> bool) \<Rightarrow> addr \<Rightarrow> heap \<Rightarrow> ((error + unit) \<times> heap \<times> addr list) option" where
  "backward depth flip self h =
     (let h1 = seed self h
      in case buildTopo depth h1 flip self ({}, []) of
           None \<Rightarrow> None
         | Some (visited, topo) \<Rightarrow> Some (run_closures (rev topo) h1 []))"

section \<open>Notions used to state the claims\<close>

text \<open>\<^verbatim>\<open>isinstance(other, (float, int))\<close>\<close>

fun is_number :: "pyobj \<Rightarrow> bool" where
  "is_number (Number p) = True"
| "is_number (ValueRef a) = False"
| "is_number OtherObj = False"

text \<open>The objects whose gradient a closure adds to.\<close>

fun targets :: "closure \<Rightarrow> addr list" where
  "targets NoOp = []"
| "targets (BwTanh self t out) = [self]"
| "targets (BwRelu self out) = [self]"
| "targets (BwSigmoid self s out) = [self]"
| "targets (BwExp self out) = [self]"
| "targets (BwAdd self other out) = [self, other]"
| "targets (BwPow self other out) = [self]"
| "targets (BwMul self other out) = [self, other]"

text \<open>
  What holds of every heap that the constructor and the operations build, and that the
  backward pass keeps: the operands of an object were made before it, so the operand
  relation is acyclic, and its closure adds to the gradients of its operands only.
\<close>

definition wf_heap :: "heap \<Rightarrow> bool" where
  "wf_heap h =
     (\<forall>a < length h. (\<forall>c \<in> set (prev (h ! a)). c < a) \<and>
                      set (targets (backward_fn (h ! a))) \<subseteq> set (prev (h ! a)))"

text \<open>The objects reachable from \<open>r\<close> through operands, \<open>r\<close> included.\<close>

definition reach :: "heap \<Rightarrow> addr \<Rightarrow> addr set" where
  "reach h r = {a. (r, a) \<in> {(v, c). c \<in> set (prev (h ! v))}\<^sup>*}"

text \<open>
  In a list of objects, the operands of each come after it (the order of the calls),
  or before it (the order of \<^verbatim>\<open>topo\<close>).
\<close>

definition operands_later :: "heap \<Rightarrow> addr list \<Rightarrow> bool" where
  "operands_later h ns = (\<forall>ys a zs. ns = ys @ a # zs \<longrightarrow> set (prev (h ! a)) \<subseteq> set zs)"

definition operands_first :: "heap \<Rightarrow> addr list \<Rightarrow> bool" where
  "operands_first h topo = (\<forall>ys a zs. topo = ys @ a # zs \<longrightarrow> set (prev (h ! a)) \<subseteq> set ys)"

text \<open>
  The invariant of the traversal. \<open>S\<close> holds the objects whose call of \<^verbatim>\<open>buildTopo\<close>
  has not returned yet: they are visited and not yet in \<^verbatim>\<open>topo\<close>.
\<close>

definition dfs_inv :: "heap \<Rightarrow> addr set \<Rightarrow> addr set \<times> addr list \<Rightarrow> bool" where
  "dfs_inv h S s =
     (fst s = set (snd s) \<union> S \<and> set (snd s) \<inter> S = {} \<and> distinct (snd s) \<and>
      operands_first h (snd s))"

text \<open>Two heaps that differ in gradients only.\<close>

definition same_graph :: "heap \<Rightarrow> heap \<Rightarrow> bool" where
  "same_graph h h' =
     (length h' = length h \<and>
      (\<forall>a. data (h' ! a) = data (h ! a) \<and> backward_fn (h' ! a) = backward_fn (h ! a) \<and>
           prev (h' ! a) = prev (h ! a) \<and> op_tag (h' ! a) = op_tag (h ! a) \<and>
           label (h' ! a) = label (h ! a)))"

text \<open>
  The heaps that a program can reach: it starts with no object, calls the constructor on
  objects that exist, applies the operations to objects that exist, and runs backward
  passes.
\<close>

fun operand_ok :: "operand \<Rightarrow> heap \<Rightarrow> bool" where
  "operand_ok (Num c) h = True"
| "operand_ok (Ref b) h = (b < length h)"

inductive built :: "heap \<Rightarrow> bool" where
  built_empty: "built []"
| built_Value:
    "built h \<Longrightarrow> \<forall>c\<in>set children. c < length h \<Longrightarrow>
     built (snd (Value_init d children tag lbl h))"
| built_tanh: "built h \<Longrightarrow> x < length h \<Longrightarrow> built (snd (tanh_v x h))"
| built_relu: "built h \<Longrightarrow> x < length h \<Longrightarrow> built (snd (relu x h))"
| built_sigmoid: "built h \<Longrightarrow> x < length h \<Longrightarrow> built (snd (sigmoid x h))"
| built_exp: "built h \<Longrightarrow> x < length h \<Longrightarrow> built (snd (exp_v x h))"
| built_add:
    "built h \<Longrightarrow> x < length h \<Longrightarrow> operand_ok other h \<Longrightarrow> built (snd (add_v x other h))"
| built_pow: "built h \<Longrightarrow> x < length h \<Longrightarrow> built (snd (pow_v x e h))"
| built_mul:
    "built h \<Longrightarrow> x < length h \<Longrightarrow> operand_ok other h \<Longrightarrow> built (snd (mul_v x other h))"
| built_rmul:
    "built h \<Longrightarrow> x < length h \<Longrightarrow> operand_ok other h \<Longrightarrow> built (snd (rmul_v x other h))"
| built_radd:
    "built h \<Longrightarrow> x < length h \<Longrightarrow> operand_ok other h \<Longrightarrow> built (snd (radd_v x other h))"
| built_truediv:
    "built h \<Longrightarrow> x < length h \<Longrightarrow> operand_ok other h \<Longrightarrow>
     built (snd (truediv_v x other h))"
| built_rtruediv:
    "built h \<Longrightarrow> x < length h \<Longrightarrow> operand_ok other h \<Longrightarrow>
     built (snd (rtruediv_v x other h))"
| built_neg: "built h \<Longrightarrow> x < length h \<Longrightarrow> built (snd (neg_v x h))"
| built_sub:
    "built h \<Longrightarrow> x < length h \<Longrightarrow> operand_ok other h \<Longrightarrow> built (snd (sub_v x other h))"
| built_rsub:
    "built h \<Longrightarrow> x < length h \<Longrightarrow> operand_ok other h \<Longrightarrow> built (snd (rsub_v x other h))"
| built_backward:
    "built h \<Longrightarrow> rt < length h \<Longrightarrow> backward depth flip rt h = Some (res, h', called) \<Longrightarrow>
     built h'"

text \<open>
  Three small graphs: \<^verbatim>\<open>x = Value(3.0); y = x*x + x\<close>; then
  \<^verbatim>\<open>x = Value(0.0); y = x**0.5\<close>; then the two leaves \<^verbatim>\<open>Value(5.0)\<close> and
  \<^verbatim>\<open>Value(2.0)\<close>.
\<close>

definition square_plus_graph :: heap where
  "square_plus_graph =
     (let (x, h1) = leaf 3 []; (m, h2) = mul_v x (Ref x) h1; (y, h3) = add_v m (Ref x) h2
      in h3)"

definition sqrt_zero_graph :: heap where
  "sqrt_zero_graph = (let (x, h1) = leaf 0 [] in snd (pow_v x (Number (1 / 2)) h1))"

definition two_leaves :: heap where
  "two_leaves = (let (a, h1) = leaf 5 []; (b, h2) = leaf 2 h1 in h2)"

section \<open>What the operations build\<close>

text \<open>Each operation appends one object (two when it wraps a number) to the heap.\<close>

lemma leaf_eq:
  "leaf c h =
     (length h,
      h @ [\<lparr>data = c, grad = 0, backward_fn = NoOp, prev = [], op_tag = Tag '''',
            label = ''''\<rparr>])"
  by (simp add: leaf_def Value_init_def)

lemma mul_v_Ref:
  "mul_v a (Ref b) h =
     (length h,
      h @ [\<lparr>data = data (h ! a) * data (h ! b), grad = 0,
            backward_fn = BwMul a b (length h), prev = remdups [a, b],
            op_tag = Tag ''*'', label = ''''\<rparr>])"
  by (simp add: mul_v_def Value_init_def set_backward_def)

lemma add_v_Ref:
  "add_v a (Ref b) h =
     (length h,
      h @ [\<lparr>data = data (h ! a) + data (h ! b), grad = 0,
            backward_fn = BwAdd a b (length h), prev = remdups [a, b],
            op_tag = Tag ''+'', label = ''''\<rparr>])"
  by (simp add: add_v_def Value_init_def set_backward_def)

lemma add_v_Num: "add_v a (Num c) h = (let (z, h1) = leaf c h in add_v a (Ref z) h1)"
  by (simp add: add_v_def)

lemma mul_v_Num: "mul_v a (Num c) h = (let (z, h1) = leaf c h in mul_v a (Ref z) h1)"
  by (simp add: mul_v_def)

lemma relu_eq:
  "relu a h =
     (length h,
      h @ [\<lparr>data = (if data (h ! a) < 0 then 0 else data (h ! a)), grad = 0,
            backward_fn = BwRelu a (length h), prev = [a],
            op_tag = Tag ''ReLU'', label = ''''\<rparr>])"
  by (simp add: relu_def Value_init_def set_backward_def)

section \<open>Reachability, the traversal and the loop over the closures\<close>

subsection \<open>Orders of a list of objects\<close>

lemma operands_first_Nil [simp]: "operands_first h []"
  by (simp add: operands_first_def)

lemma operands_first_snoc:
  "operands_first h (topo @ [v]) \<longleftrightarrow> operands_first h topo \<and> set (prev (h ! v)) \<subseteq> set topo"
proof
  assume L: "operands_first h (topo @ [v])"
  have "operands_first h topo"
    unfolding operands_first_def
  proof (intro allI impI)
    fix ys a zs assume "topo = ys @ a # zs"
    then have "topo @ [v] = ys @ a # (zs @ [v])" by simp
    with L show "set (prev (h ! a)) \<subseteq> set ys"
      unfolding operands_first_def by blast
  qed
  moreover have "set (prev (h ! v)) \<subseteq> set topo"
    using L unfolding operands_first_def by blast
  ultimately show "operands_first h topo \<and> set (prev (h ! v)) \<subseteq> set topo" ..
next
  assume R: "operands_first h topo \<and> set (prev (h ! v)) \<subseteq> set topo"
  show "operands_first h (topo @ [v])"
    unfolding operands_first_def
  proof (intro allI impI)
    fix ys a zs assume eq: "topo @ [v] = ys @ a # zs"
    show "set (prev (h ! a)) \<subseteq> set ys"
    proof (cases zs rule: rev_cases)
      case Nil
      with eq have "ys = topo" "a = v" by simp_all
      with R show ?thesis by simp
    next
      case (snoc zs' z)
      with eq have "topo = ys @ a # zs'" by simp
      with R show ?thesis unfolding operands_first_def by blast
    qed
  qed
qed

lemma operands_later_rev:
  "operands_first h topo \<Longrightarrow> operands_later h (rev topo)"
  unfolding operands_first_def operands_later_def
proof (intro allI impI)
  fix ys a zs
  assume H: "\<forall>ys a zs. topo = ys @ a # zs \<longrightarrow> set (prev (h ! a)) \<subseteq> set ys"
    and eq: "rev topo = ys @ a # zs"
  from eq have "rev (rev topo) = rev (ys @ a # zs)" by simp
  then have "topo = rev zs @ a # rev ys" by simp
  with H have "set (prev (h ! a)) \<subseteq> set (rev zs)" by blast
  then show "set (prev (h ! a)) \<subseteq> set zs" by simp
qed

subsection \<open>Reachable objects\<close>

lemma reach_root: "r \<in> reach h r"
  by (simp add: reach_def)

lemma reach_step: "a \<in> reach h r \<Longrightarrow> c \<in> set (prev (h ! a)) \<Longrightarrow> c \<in> reach h r"
  unfolding reach_def by (auto intro: rtrancl_into_rtrancl)

lemma reach_trans: "a \<in> reach h r \<Longrightarrow> b \<in> reach h a \<Longrightarrow> b \<in> reach h r"
  unfolding reach_def by auto

lemma reach_child: "c \<in> set (prev (h ! v)) \<Longrightarrow> reach h c \<subseteq> reach h v"
  using reach_trans reach_step reach_root by blast

lemma reach_least:
  assumes "r \<in> A" and "\<And>a c. a \<in> A \<Longrightarrow> c \<in> set (prev (h ! a)) \<Longrightarrow> c \<in> A"
  shows "reach h r \<subseteq> A"
proof
  fix a assume "a \<in> reach h r"
  then have "(r, a) \<in> {(v, c). c \<in> set (prev (h ! v))}\<^sup>*"
    by (simp add: reach_def)
  then show "a \<in> A"
    by (induction rule: rtrancl_induct) (use assms in auto)
qed

lemma reach_bounded:
  assumes "wf_heap h" "r < length h"
  shows "reach h r \<subseteq> {..r}"
proof -
  have "reach h r \<subseteq> {a. a \<le> r}"
  proof (rule reach_least)
    show "r \<in> {a. a \<le> r}" by simp
  next
    fix a c assume "a \<in> {a. a \<le> r}" "c \<in> set (prev (h ! a))"
    then have "a \<le> r" "c \<in> set (prev (h ! a))" by simp_all
    moreover from \<open>a \<le> r\<close> assms(2) have "a < length h" by simp
    ultimately have "c < a" using assms(1) unfolding wf_heap_def by blast
    with \<open>a \<le> r\<close> show "c \<in> {a. a \<le> r}" by simp
  qed
  then show ?thesis by auto
qed

lemma finite_reach: "wf_heap h \<Longrightarrow> r < length h \<Longrightarrow> finite (reach h r)"
  using reach_bounded finite_subset by blast

lemma card_reach_le: "wf_heap h \<Longrightarrow> r < length h \<Longrightarrow> card (reach h r) \<le> Suc r"
  using reach_bounded [of h r] card_mono [of "{..r}" "reach h r"] by simp

subsection \<open>The traversal keeps its invariant\<close>

text \<open>
  A call of \<^verbatim>\<open>buildTopo\<close> that returns extends \<^verbatim>\<open>topo\<close> by objects reachable from
  its argument, the argument last when it was not visited before, and leaves the
  invariant as it found it.
\<close>

lemma set_iter_prev [simp]: "set (iter_prev flip h v) = set (prev (h ! v))"
  by (simp add: iter_prev_def)

lemma wf_heap_child: "wf_heap h \<Longrightarrow> v < length h \<Longrightarrow> c \<in> set (prev (h ! v)) \<Longrightarrow> c < v"
  unfolding wf_heap_def by blast

lemma buildTopo_inv:
  "buildTopo n h flip v s = Some s' \<Longrightarrow> wf_heap h \<Longrightarrow> v < length h \<Longrightarrow> dfs_inv h S s \<Longrightarrow>
     \<forall>x\<in>S. v < x \<Longrightarrow>
     dfs_inv h S s' \<and> v \<in> fst s' \<and>
     (\<exists>new. snd s' = snd s @ new \<and> set new \<subseteq> reach h v \<and>
            (v \<notin> fst s \<longrightarrow> new \<noteq> [] \<and> last new = v))"
  and visit_children_inv:
  "visit_children n h flip cs s = Some s' \<Longrightarrow> wf_heap h \<Longrightarrow>
     \<forall>c\<in>set cs. c < length h \<and> (\<forall>x\<in>S. c < x) \<Longrightarrow> dfs_inv h S s \<Longrightarrow>
     dfs_inv h S s' \<and> set cs \<subseteq> fst s' \<and>
     (\<exists>new. snd s' = snd s @ new \<and> set new \<subseteq> (\<Union>c\<in>set cs. reach h c))"
proof (induction n h flip v s and n h flip cs s arbitrary: s' S and s' S
    rule: buildTopo_visit_children.induct)
  case (1 h flip v s)
  then show ?case by simp
next
  case (2 n h flip v visited topo)
  show ?case
  proof (cases "v \<in> visited")
    case True
    with "2.prems" have "s' = (visited, topo)" by simp
    with True "2.prems" show ?thesis by simp
  next
    case False
    with "2.prems"(1) obtain vis2 topo2 where
      vc: "visit_children n h flip (iter_prev flip h v) (insert v visited, topo) = Some (vis2, topo2)"
      and s': "s' = (vis2, topo2 @ [v])"
      by (auto split: option.splits)
    from "2.prems" have inv: "visited = set topo \<union> S" "set topo \<inter> S = {}" "distinct topo"
      "operands_first h topo"
      by (simp_all add: dfs_inv_def)
    from False inv have vS: "v \<notin> S" and vt: "v \<notin> set topo" by auto
    have kids: "\<forall>c\<in>set (iter_prev flip h v). c < length h \<and> (\<forall>x\<in>insert v S. c < x)"
    proof
      fix c assume "c \<in> set (iter_prev flip h v)"
      then have "c < v" using wf_heap_child "2.prems"(2,3) by simp
      with "2.prems"(3,5) show "c < length h \<and> (\<forall>x\<in>insert v S. c < x)" by fastforce
    qed
    have inv1: "dfs_inv h (insert v S) (insert v visited, topo)"
      using inv vt by (auto simp: dfs_inv_def)
    from "2.IH" [OF False vc "2.prems"(2) kids inv1]
    have inv2: "dfs_inv h (insert v S) (vis2, topo2)"
      and sub: "set (prev (h ! v)) \<subseteq> vis2"
      and ex: "\<exists>new. topo2 = topo @ new \<and> set new \<subseteq> (\<Union>c\<in>set (prev (h ! v)). reach h c)"
      by simp_all
    from inv2 have i2: "vis2 = set topo2 \<union> insert v S" "set topo2 \<inter> insert v S = {}"
      "distinct topo2" "operands_first h topo2"
      by (simp_all add: dfs_inv_def)
    have kids_in: "set (prev (h ! v)) \<subseteq> set topo2"
    proof
      fix c assume c: "c \<in> set (prev (h ! v))"
      then have "c < v" using wf_heap_child "2.prems"(2,3) by simp
      with "2.prems"(5) have "c \<noteq> v" "c \<notin> S" by auto
      moreover from c sub i2(1) have "c \<in> set topo2 \<union> insert v S" by auto
      ultimately show "c \<in> set topo2" by simp
    qed
    from i2 kids_in vS have "dfs_inv h S (vis2, topo2 @ [v])"
      by (auto simp: dfs_inv_def operands_first_snoc)
    moreover from i2(1) have "v \<in> vis2" by simp
    moreover from ex obtain new where new: "topo2 = topo @ new"
      "set new \<subseteq> (\<Union>c\<in>set (prev (h ! v)). reach h c)" by blast
    have "set (new @ [v]) \<subseteq> reach h v"
      using new(2) reach_child [of _ h v] reach_root [of v h] by auto
    with new(1) have "\<exists>new'. topo2 @ [v] = topo @ new' \<and> set new' \<subseteq> reach h v \<and>
        new' \<noteq> [] \<and> last new' = v"
      by (intro exI [of _ "new @ [v]"]) simp
    ultimately show ?thesis using s' by auto
  qed
next
  case (3 n h flip s)
  then show ?case by simp
next
  case (4 n h flip child rest s)
  from "4.prems"(1) obtain s1 where
    b: "buildTopo n h flip child s = Some s1" and
    r: "visit_children n h flip rest s1 = Some s'"
    by (auto split: option.splits)
  from "4.prems"(3) have c1: "child < length h" "\<forall>x\<in>S. child < x"
    and c2: "\<forall>c\<in>set rest. c < length h \<and> (\<forall>x\<in>S. c < x)"
    by simp_all
  from "4.IH"(1) [OF b "4.prems"(2) c1(1) "4.prems"(4) c1(2)]
  have inv1: "dfs_inv h S s1" and in1: "child \<in> fst s1"
    and ex1: "\<exists>new. snd s1 = snd s @ new \<and> set new \<subseteq> reach h child"
    by blast+
  from "4.IH"(2) [OF b r "4.prems"(2) c2 inv1]
  have inv2: "dfs_inv h S s'" and in2: "set rest \<subseteq> fst s'"
    and ex2: "\<exists>new. snd s' = snd s1 @ new \<and> set new \<subseteq> (\<Union>c\<in>set rest. reach h c)"
    by blast+
  from ex1 obtain n1 where n1: "snd s1 = snd s @ n1" "set n1 \<subseteq> reach h child" by blast
  from ex2 obtain n2 where n2: "snd s' = snd s1 @ n2" "set n2 \<subseteq> (\<Union>c\<in>set rest. reach h c)"
    by blast
  from inv1 inv2 n2(1) have "fst s1 \<subseteq> fst s'"
    by (auto simp: dfs_inv_def)
  with in1 in2 have "set (child # rest) \<subseteq> fst s'" by auto
  moreover have "snd s' = snd s @ (n1 @ n2)" using n1 n2 by simp
  moreover have "set (n1 @ n2) \<subseteq> (\<Union>c\<in>set (child # rest). reach h c)"
    using n1(2) n2(2) by auto
  ultimately show ?case using inv2 by blast
qed

subsection \<open>A depth that suffices\<close>

text \<open>
  Every call of \<^verbatim>\<open>buildTopo\<close> that goes further marks an object not visited before,
  so the nesting never exceeds the number of objects that can be met, plus one for the
  call that finds its argument visited.
\<close>

lemma buildTopo_enough:
  "finite R \<Longrightarrow> \<forall>a\<in>R. set (prev (h ! a)) \<subseteq> R \<Longrightarrow> v \<in> R \<Longrightarrow> card (R - fst s) < n \<Longrightarrow>
     \<exists>s'. buildTopo n h flip v s = Some s' \<and> fst s \<subseteq> fst s'"
  and visit_children_enough:
  "finite R \<Longrightarrow> \<forall>a\<in>R. set (prev (h ! a)) \<subseteq> R \<Longrightarrow> set cs \<subseteq> R \<Longrightarrow> card (R - fst s) < n \<Longrightarrow>
     \<exists>s'. visit_children n h flip cs s = Some s' \<and> fst s \<subseteq> fst s'"
proof (induction n h flip v s and n h flip cs s rule: buildTopo_visit_children.induct)
  case (1 h flip v s)
  then show ?case by simp
next
  case (2 n h flip v visited topo)
  show ?case
  proof (cases "v \<in> visited")
    case True
    then show ?thesis by simp
  next
    case False
    with "2.prems" have vin: "v \<in> R - visited" by simp
    from "2.prems"(1) have "finite (R - visited)" by simp
    from card.remove [OF this vin]
    have "card (R - visited) = Suc (card (R - visited - {v}))" .
    moreover have "R - visited - {v} = R - insert v visited" by auto
    ultimately have c: "card (R - fst (insert v visited, topo)) < n"
      using "2.prems"(4) by simp
    have "set (iter_prev flip h v) \<subseteq> R"
      using "2.prems"(2,3) by simp
    from "2.IH" [OF False "2.prems"(1,2) this c]
    obtain s2 where "visit_children n h flip (iter_prev flip h v) (insert v visited, topo) = Some s2"
      "insert v visited \<subseteq> fst s2" by auto
    with False show ?thesis by (cases s2) auto
  qed
next
  case (3 n h flip s)
  then show ?case by simp
next
  case (4 n h flip child rest s)
  from "4.prems"(3) have "child \<in> R" "set rest \<subseteq> R" by simp_all
  from "4.IH"(1) [OF "4.prems"(1,2) \<open>child \<in> R\<close> "4.prems"(4)]
  obtain s1 where b: "buildTopo n h flip child s = Some s1" and m: "fst s \<subseteq> fst s1" by blast
  from m have "R - fst s1 \<subseteq> R - fst s" by auto
  with "4.prems"(1) have "card (R - fst s1) \<le> card (R - fst s)"
    by (simp add: card_mono)
  with "4.prems"(4) have "card (R - fst s1) < n" by simp
  from "4.IH"(2) [OF b "4.prems"(1,2) \<open>set rest \<subseteq> R\<close> this]
  obtain s' where "visit_children n h flip rest s1 = Some s'" "fst s1 \<subseteq> fst s'" by blast
  with b m show ?case by auto
qed

lemma dfs_correct:
  assumes wf: "wf_heap h" and r: "rt < length h" and d: "card (reach h rt) < depth"
  shows "\<exists>topo. buildTopo depth h flip rt ({}, []) = Some (set topo, topo) \<and>
           distinct topo \<and> set topo = reach h rt \<and> operands_first h topo \<and>
           topo \<noteq> [] \<and> last topo = rt"
proof -
  have fin: "finite (reach h rt)" using wf r by (rule finite_reach)
  have cl: "\<forall>a\<in>reach h rt. set (prev (h ! a)) \<subseteq> reach h rt"
    using reach_step by blast
  from d have "card (reach h rt - fst ({}::addr set, []::addr list)) < depth" by simp
  from buildTopo_enough [OF fin cl reach_root this]
  obtain s' where b: "buildTopo depth h flip rt ({}, []) = Some s'" by blast
  have "dfs_inv h {} ({}, [])" by (simp add: dfs_inv_def)
  from buildTopo_inv [OF b wf r this]
  have inv: "dfs_inv h {} s'" and rin: "rt \<in> fst s'"
    and ex: "\<exists>new. snd s' = new \<and> set new \<subseteq> reach h rt \<and> new \<noteq> [] \<and> last new = rt"
    by simp_all
  obtain vis topo where s': "s' = (vis, topo)" by (cases s')
  from inv s' have i: "vis = set topo" "distinct topo" "operands_first h topo"
    by (simp_all add: dfs_inv_def)
  from ex s' have e: "set topo \<subseteq> reach h rt" "topo \<noteq> []" "last topo = rt" by simp_all
  have sup: "reach h rt \<subseteq> set topo"
  proof (rule reach_least)
    from rin s' i(1) show "rt \<in> set topo" by simp
  next
    fix a c assume "a \<in> set topo" "c \<in> set (prev (h ! a))"
    from \<open>a \<in> set topo\<close> obtain ys zs where "topo = ys @ a # zs"
      by (auto simp: in_set_conv_decomp)
    with i(3) have "set (prev (h ! a)) \<subseteq> set ys" unfolding operands_first_def by blast
    with \<open>c \<in> set (prev (h ! a))\<close> \<open>topo = ys @ a # zs\<close> show "c \<in> set topo" by auto
  qed
  from b s' i(1) have "buildTopo depth h flip rt ({}, []) = Some (set topo, topo)"
    by simp
  moreover from e(1) sup have "set topo = reach h rt" by (rule subset_antisym)
  ultimately show ?thesis using i(2,3) e(2,3)
    by (intro exI [of _ topo]) simp
qed

subsection \<open>The closures change gradients only\<close>

lemma same_graph_refl [simp]: "same_graph h h"
  by (simp add: same_graph_def)

lemma same_graph_trans: "same_graph h h1 \<Longrightarrow> same_graph h1 h2 \<Longrightarrow> same_graph h h2"
  by (simp add: same_graph_def)

lemma nth_grad_update:
  "(h[a := (h ! a)\<lparr>grad := g\<rparr>]) ! b = (if a = b \<and> a < length h then (h ! a)\<lparr>grad := g\<rparr> else h ! b)"
  by (cases "a < length h") (auto simp: nth_list_update list_update_beyond)

lemma same_graph_add_grad [simp]: "same_graph h (add_grad a d h)"
  by (simp add: same_graph_def add_grad_def nth_grad_update)

lemma same_graph_seed [simp]: "same_graph h (seed r h)"
  by (simp add: same_graph_def seed_def nth_grad_update)

lemma same_graph_add_grad2: "same_graph h (add_grad b e (add_grad a d h))"
  using same_graph_add_grad same_graph_add_grad by (rule same_graph_trans)

lemma run_closure_same: "run_closure c h = Inr h' \<Longrightarrow> same_graph h h'"
  by (cases c) (auto simp: Let_def same_graph_add_grad2 split: sum.splits)

lemma run_closures_same:
  "run_closures ns h called = (res, h', called') \<Longrightarrow> same_graph h h'"
proof (induction ns arbitrary: h called)
  case Nil
  then show ?case by simp
next
  case (Cons n ns)
  show ?case
  proof (cases "run_closure (backward_fn (h ! n)) h")
    case (Inl e)
    with Cons.prems show ?thesis by simp
  next
    case (Inr h1)
    with Cons.prems have "run_closures ns h1 (called @ [n]) = (res, h', called')" by simp
    then have "same_graph h1 h'" by (rule Cons.IH)
    with run_closure_same [OF Inr] show ?thesis by (rule same_graph_trans)
  qed
qed

lemma length_add_grad [simp]: "length (add_grad a d h) = length h"
  by (simp add: add_grad_def)

lemma length_seed [simp]: "length (seed r h) = length h"
  by (simp add: seed_def)

lemma grad_seed_root: "r < length h \<Longrightarrow> grad (seed r h ! r) = 1"
  by (simp add: seed_def)

lemma grad_seed_other: "x \<noteq> r \<Longrightarrow> grad (seed r h ! x) = grad (h ! x)"
  by (simp add: seed_def)

lemma data_seed: "data (seed r h ! a) = data (h ! a)"
  using same_graph_seed [of h r] by (simp add: same_graph_def)

lemma data_add_grad: "data (add_grad a d h ! b) = data (h ! b)"
  using same_graph_add_grad [of h a d] by (simp add: same_graph_def)

lemma grad_add_grad_same: "a < length h \<Longrightarrow> grad (add_grad a d h ! a) = grad (h ! a) + d"
  by (simp add: add_grad_def)

subsection \<open>Which gradients the loop can change, and which closures it calls\<close>

lemma grad_add_grad_other: "x \<noteq> a \<Longrightarrow> grad (add_grad a d h ! x) = grad (h ! x)"
  by (simp add: add_grad_def)

lemma run_closure_frame:
  "run_closure c h = Inr h' \<Longrightarrow> x \<notin> set (targets c) \<Longrightarrow> grad (h' ! x) = grad (h ! x)"
  by (cases c) (auto simp: Let_def grad_add_grad_other split: sum.splits)

lemma run_closures_frame:
  "run_closures ns h called = (res, h', called') \<Longrightarrow>
   \<forall>n\<in>set ns. x \<notin> set (targets (backward_fn (h ! n))) \<Longrightarrow> grad (h' ! x) = grad (h ! x)"
proof (induction ns arbitrary: h called)
  case Nil
  then show ?case by simp
next
  case (Cons n ns)
  show ?case
  proof (cases "run_closure (backward_fn (h ! n)) h")
    case (Inl e)
    with Cons.prems show ?thesis by simp
  next
    case (Inr h1)
    with Cons.prems have r: "run_closures ns h1 (called @ [n]) = (res, h', called')" by simp
    from run_closure_same [OF Inr] have "\<forall>m. backward_fn (h1 ! m) = backward_fn (h ! m)"
      by (simp add: same_graph_def)
    with Cons.prems(2) have "\<forall>m\<in>set ns. x \<notin> set (targets (backward_fn (h1 ! m)))" by simp
    with r have "grad (h' ! x) = grad (h1 ! x)" by (rule Cons.IH)
    moreover from Cons.prems(2) have "x \<notin> set (targets (backward_fn (h ! n)))" by simp
    with Inr have "grad (h1 ! x) = grad (h ! x)" by (rule run_closure_frame)
    ultimately show ?thesis by simp
  qed
qed

lemma only_pow_raises:
  "run_closure c h = Inl e \<Longrightarrow> \<exists>self other out. c = BwPow self other out"
  by (cases c) (simp_all add: Let_def)

lemma run_closures_called:
  "run_closures ns h called = (res, h', called') \<Longrightarrow>
   \<exists>ran rest. called' = called @ ran \<and> ns = ran @ rest \<and> (res = Inr () \<longrightarrow> rest = [])"
proof (induction ns arbitrary: h called)
  case Nil
  then show ?case by simp
next
  case (Cons n ns)
  show ?case
  proof (cases "run_closure (backward_fn (h ! n)) h")
    case (Inl e)
    with Cons.prems have "called' = called @ [n]" "res = Inl e" by simp_all
    then show ?thesis by (intro exI [of _ "[n]"] exI [of _ ns]) simp
  next
    case (Inr h1)
    with Cons.prems have "run_closures ns h1 (called @ [n]) = (res, h', called')" by simp
    from Cons.IH [OF this] obtain ran rest where
      "called' = (called @ [n]) @ ran" "ns = ran @ rest" "res = Inr () \<longrightarrow> rest = []" by blast
    then show ?thesis by (intro exI [of _ "n # ran"] exI [of _ rest]) simp
  qed
qed

lemma run_closures_outcome:
  "run_closures ns h called = (res, h', called') \<Longrightarrow>
   \<exists>ran rest. called' = called @ ran \<and> ns = ran @ rest \<and> (res = Inr () \<longrightarrow> rest = []) \<and>
     (\<forall>e. res = Inl e \<longrightarrow> ran \<noteq> [] \<and> run_closure (backward_fn (h' ! last ran)) h' = Inl e)"
proof (induction ns arbitrary: h called)
  case Nil
  then show ?case by auto
next
  case (Cons n ns)
  show ?case
  proof (cases "run_closure (backward_fn (h ! n)) h")
    case (Inl e)
    with Cons.prems have "called' = called @ [n]" "res = Inl e" "h' = h" by simp_all
    with Inl show ?thesis by (intro exI [of _ "[n]"] exI [of _ ns]) simp
  next
    case (Inr h1)
    with Cons.prems have "run_closures ns h1 (called @ [n]) = (res, h', called')" by simp
    from Cons.IH [OF this] obtain ran rest where
      *: "called' = (called @ [n]) @ ran" "ns = ran @ rest" "res = Inr () \<longrightarrow> rest = []"
      "\<forall>e. res = Inl e \<longrightarrow> ran \<noteq> [] \<and> run_closure (backward_fn (h' ! last ran)) h' = Inl e"
      by blast
    then show ?thesis by (intro exI [of _ "n # ran"] exI [of _ rest]) auto
  qed
qed

subsection \<open>The pass, unfolded\<close>

lemma reach_cong: "\<forall>a. prev (h' ! a) = prev (h ! a) \<Longrightarrow> reach h' r = reach h r"
  by (simp add: reach_def)

lemma wf_heap_same: "same_graph h h' \<Longrightarrow> wf_heap h \<Longrightarrow> wf_heap h'"
  by (simp add: same_graph_def wf_heap_def)

lemma operands_first_cong:
  "\<forall>a. prev (h' ! a) = prev (h ! a) \<Longrightarrow> operands_first h' topo = operands_first h topo"
  by (simp add: operands_first_def)

lemma backward_unfold:
  assumes wf: "wf_heap h" and r: "rt < length h" and d: "card (reach h rt) < depth"
  shows "\<exists>topo. buildTopo depth (seed rt h) flip rt ({}, []) = Some (set topo, topo) \<and>
           backward depth flip rt h = Some (run_closures (rev topo) (seed rt h) []) \<and>
           distinct topo \<and> set topo = reach h rt \<and> operands_first h topo \<and>
           topo \<noteq> [] \<and> last topo = rt"
proof -
  have sg: "same_graph h (seed rt h)" by simp
  then have p: "\<forall>a. prev (seed rt h ! a) = prev (h ! a)" by (simp add: same_graph_def)
  from sg wf have wf1: "wf_heap (seed rt h)" by (rule wf_heap_same)
  from sg r have r1: "rt < length (seed rt h)" by (simp add: same_graph_def)
  from d have d1: "card (reach (seed rt h) rt) < depth" by (simp add: reach_cong [OF p])
  from dfs_correct [OF wf1 r1 d1, of flip] obtain topo where
    t: "buildTopo depth (seed rt h) flip rt ({}, []) = Some (set topo, topo)"
      "distinct topo" "set topo = reach (seed rt h) rt" "operands_first (seed rt h) topo"
      "topo \<noteq> []" "last topo = rt"
    by blast
  from t(1) have "backward depth flip rt h = Some (run_closures (rev topo) (seed rt h) [])"
    by (simp add: backward_def)
  with t show ?thesis
    by (auto simp: reach_cong [OF p] operands_first_cong [OF p])
qed

lemma backward_enough:
  assumes wf: "wf_heap h" and r: "rt < length h" and d: "Suc rt < depth"
  shows "\<exists>res h' called. backward depth flip rt h = Some (res, h', called)"
proof -
  from card_reach_le [OF wf r] d have "card (reach h rt) < depth" by simp
  from backward_unfold [OF wf r this, of flip] obtain topo where
    "backward depth flip rt h = Some (run_closures (rev topo) (seed rt h) [])" by blast
  then show ?thesis by (cases "run_closures (rev topo) (seed rt h) []") auto
qed

subsection \<open>The operations and the pass keep heaps well-formed\<close>

lemma wf_heap_Nil [simp]: "wf_heap []"
  by (simp add: wf_heap_def)

lemma wf_heap_snoc:
  assumes "wf_heap h" "\<forall>c\<in>set (prev n). c < length h"
    "set (targets (backward_fn n)) \<subseteq> set (prev n)"
  shows "wf_heap (h @ [n])"
  unfolding wf_heap_def
proof (intro allI impI)
  fix a assume "a < length (h @ [n])"
  then consider "a < length h" | "a = length h" by fastforce
  then show "(\<forall>c\<in>set (prev ((h @ [n]) ! a)). c < a) \<and>
      set (targets (backward_fn ((h @ [n]) ! a))) \<subseteq> set (prev ((h @ [n]) ! a))"
  proof cases
    case 1
    with assms(1) show ?thesis by (simp add: wf_heap_def nth_append)
  next
    case 2
    with assms(2,3) show ?thesis by simp
  qed
qed

lemma wf_heap_leaf: "wf_heap h \<Longrightarrow> wf_heap (snd (leaf c h))"
  by (simp add: leaf_eq wf_heap_snoc)

lemma wf_heap_relu: "wf_heap h \<Longrightarrow> x < length h \<Longrightarrow> wf_heap (snd (relu x h))"
  by (simp add: relu_eq wf_heap_snoc)

lemma wf_heap_add_v_Ref:
  "wf_heap h \<Longrightarrow> a < length h \<Longrightarrow> b < length h \<Longrightarrow> wf_heap (snd (add_v a (Ref b) h))"
  by (simp add: add_v_Ref wf_heap_snoc)

lemma wf_heap_mul_v_Ref:
  "wf_heap h \<Longrightarrow> a < length h \<Longrightarrow> b < length h \<Longrightarrow> wf_heap (snd (mul_v a (Ref b) h))"
  by (simp add: mul_v_Ref wf_heap_snoc)

lemma wf_heap_add_v:
  assumes "wf_heap h" "a < length h" "\<forall>b. other = Ref b \<longrightarrow> b < length h"
  shows "wf_heap (snd (add_v a other h))"
proof (cases other)
  case (Num c)
  have "wf_heap (snd (leaf c h))" using assms(1) by (rule wf_heap_leaf)
  then have "wf_heap (snd (add_v a (Ref (length h)) (snd (leaf c h))))"
    using assms(2) by (intro wf_heap_add_v_Ref) (simp_all add: leaf_eq)
  with Num show ?thesis by (simp add: add_v_Num leaf_eq)
next
  case (Ref b)
  with assms show ?thesis by (simp add: wf_heap_add_v_Ref)
qed

lemma wf_heap_mul_v:
  assumes "wf_heap h" "a < length h" "\<forall>b. other = Ref b \<longrightarrow> b < length h"
  shows "wf_heap (snd (mul_v a other h))"
proof (cases other)
  case (Num c)
  have "wf_heap (snd (leaf c h))" using assms(1) by (rule wf_heap_leaf)
  then have "wf_heap (snd (mul_v a (Ref (length h)) (snd (leaf c h))))"
    using assms(2) by (intro wf_heap_mul_v_Ref) (simp_all add: leaf_eq)
  with Num show ?thesis by (simp add: mul_v_Num leaf_eq)
next
  case (Ref b)
  with assms show ?thesis by (simp add: wf_heap_mul_v_Ref)
qed

lemma wf_heap_tanh_v: "wf_heap h \<Longrightarrow> x < length h \<Longrightarrow> wf_heap (snd (tanh_v x h))"
  by (simp add: tanh_v_def Value_init_def set_backward_def Let_def wf_heap_snoc)

lemma wf_heap_sigmoid: "wf_heap h \<Longrightarrow> x < length h \<Longrightarrow> wf_heap (snd (sigmoid x h))"
  by (simp add: sigmoid_def Value_init_def set_backward_def Let_def wf_heap_snoc)

lemma wf_heap_exp_v: "wf_heap h \<Longrightarrow> x < length h \<Longrightarrow> wf_heap (snd (exp_v x h))"
  by (simp add: exp_v_def Value_init_def set_backward_def Let_def wf_heap_snoc)

lemma wf_heap_pow_v: "wf_heap h \<Longrightarrow> x < length h \<Longrightarrow> wf_heap (snd (pow_v x e h))"
  by (cases e) (auto simp: pow_v_def Value_init_def set_backward_def Let_def wf_heap_snoc
      split: sum.splits)

lemma wf_heap_Value_init:
  "wf_heap h \<Longrightarrow> \<forall>c\<in>set children. c < length h \<Longrightarrow>
   wf_heap (snd (Value_init d children tag lbl h))"
  by (simp add: Value_init_def wf_heap_snoc)

lemma wf_heap_neg_v: "wf_heap h \<Longrightarrow> b < length h \<Longrightarrow> wf_heap (snd (neg_v b h))"
  by (simp add: neg_v_def wf_heap_mul_v)

lemma wf_heap_sub_v:
  "wf_heap h \<Longrightarrow> a < length h \<Longrightarrow> (\<forall>b. other = Ref b \<longrightarrow> b < length h) \<Longrightarrow>
   wf_heap (snd (sub_v a other h))"
proof (cases other)
  case (Num c)
  assume "wf_heap h" "a < length h"
  with Num show ?thesis by (simp add: sub_v_def wf_heap_add_v)
next
  case (Ref b)
  assume wf: "wf_heap h" and a: "a < length h" and "\<forall>b. other = Ref b \<longrightarrow> b < length h"
  with Ref have b: "b < length h" by simp
  obtain n h1 where n: "neg_v b h = (n, h1)" by (cases "neg_v b h")
  then have "n < length h1" "length h \<le> length h1"
    by (auto simp: neg_v_def mul_v_Num leaf_eq mul_v_Ref)
  moreover from wf_heap_neg_v [OF wf b] n have "wf_heap h1" by simp
  ultimately have "wf_heap (snd (add_v a (Ref n) h1))"
    using a by (intro wf_heap_add_v_Ref) simp_all
  with Ref n show ?thesis by (simp add: sub_v_def)
qed

lemma pow_v_result:
  "pow_v x e h = (Inr p, h1) \<Longrightarrow> p = length h \<and> length h1 = Suc (length h)"
  by (cases e) (auto simp: pow_v_def Value_init_def set_backward_def Let_def split: sum.splits)

lemma pow_v_error: "pow_v x e h = (Inl err, h1) \<Longrightarrow> h1 = h"
  by (cases e) (auto simp: pow_v_def Value_init_def set_backward_def Let_def split: sum.splits)

lemma wf_heap_truediv_v:
  assumes wf: "wf_heap h" and x: "x < length h" and ok: "operand_ok other h"
  shows "wf_heap (snd (truediv_v x other h))"
proof (cases other)
  case (Num c)
  show ?thesis
  proof (cases "py_pow c (- 1)")
    case (Inl e)
    with Num wf show ?thesis by simp
  next
    case (Inr q)
    from wf_heap_mul_v [OF wf x, of "Num q"] Num Inr show ?thesis
      by (simp add: case_prod_beta)
  qed
next
  case (Ref b)
  with ok have b: "b < length h" by simp
  obtain res h1 where p: "pow_v b (Number (- 1)) h = (res, h1)"
    by (cases "pow_v b (Number (- 1)) h")
  from wf_heap_pow_v [OF wf b, of "Number (- 1)"] p have wf1: "wf_heap h1" by simp
  show ?thesis
  proof (cases res)
    case (Inl e)
    with Ref p wf1 show ?thesis by simp
  next
    case (Inr pw)
    with p pow_v_result have "pw = length h" "length h1 = Suc (length h)" by blast+
    with x have "x < length h1" "pw < length h1" by simp_all
    from wf_heap_mul_v_Ref [OF wf1 this] Ref p Inr show ?thesis
      by (simp add: case_prod_beta)
  qed
qed

lemma wf_heap_rtruediv_v:
  assumes wf: "wf_heap h" and x: "x < length h" and ok: "operand_ok other h"
  shows "wf_heap (snd (rtruediv_v x other h))"
proof -
  obtain res h1 where p: "pow_v x (Number (- 1)) h = (res, h1)"
    by (cases "pow_v x (Number (- 1)) h")
  from wf_heap_pow_v [OF wf x, of "Number (- 1)"] p have wf1: "wf_heap h1" by simp
  show ?thesis
  proof (cases res)
    case (Inl e)
    with p wf1 show ?thesis by (cases other) simp_all
  next
    case (Inr pw)
    with p pow_v_result have pw: "pw = length h" "length h1 = Suc (length h)" by blast+
    then have pl: "pw < length h1" by simp
    show ?thesis
    proof (cases other)
      case (Num c)
      from wf_heap_mul_v [OF wf1 pl, of "Num c"] Num p Inr show ?thesis
        by (simp add: rmul_v_def case_prod_beta)
    next
      case (Ref b)
      with ok pw have "b < length h1" by simp
      from wf_heap_mul_v_Ref [OF wf1 this pl] Ref p Inr show ?thesis
        by (simp add: case_prod_beta)
    qed
  qed
qed

lemma wf_heap_backward:
  "wf_heap h \<Longrightarrow> backward depth flip rt h = Some (res, h', called) \<Longrightarrow> wf_heap h'"
proof -
  assume wf: "wf_heap h" and b: "backward depth flip rt h = Some (res, h', called)"
  from b obtain topo where "run_closures (rev topo) (seed rt h) [] = (res, h', called)"
    by (auto simp: backward_def Let_def split: option.splits)
  then have "same_graph (seed rt h) h'" by (rule run_closures_same)
  with same_graph_seed have "same_graph h h'" by (rule same_graph_trans)
  then show "wf_heap h'" using wf by (rule wf_heap_same)
qed

subsection \<open>An operand that only the root consumes\<close>

lemma reach_unfold: "reach h r = insert r (\<Union>c\<in>set (prev (h ! r)). reach h c)"
proof
  show "reach h r \<subseteq> insert r (\<Union>c\<in>set (prev (h ! r)). reach h c)"
  proof (rule reach_least)
    show "r \<in> insert r (\<Union>c\<in>set (prev (h ! r)). reach h c)" by simp
  next
    fix a c
    assume a: "a \<in> insert r (\<Union>c\<in>set (prev (h ! r)). reach h c)" and c: "c \<in> set (prev (h ! a))"
    show "c \<in> insert r (\<Union>c\<in>set (prev (h ! r)). reach h c)"
    proof (cases "a = r")
      case True
      with c reach_root show ?thesis by auto
    next
      case False
      with a obtain c' where "c' \<in> set (prev (h ! r))" "a \<in> reach h c'" by auto
      with c reach_step show ?thesis by blast
    qed
  qed
next
  show "insert r (\<Union>c\<in>set (prev (h ! r)). reach h c) \<subseteq> reach h r"
    using reach_root reach_child by fastforce
qed

text \<open>Such an operand keeps what the closure of the root gave it.\<close>

lemma backward_operand_grad:
  assumes wf: "wf_heap h" and r: "rt < length h" and d: "card (reach h rt) < depth"
    and only: "\<forall>n\<in>reach h rt - {rt}. x \<notin> set (prev (h ! n))"
    and c: "run_closure (backward_fn (h ! rt)) (seed rt h) = Inr h2"
  shows "\<exists>res h' called. backward depth flip rt h = Some (res, h', called) \<and>
           grad (h' ! x) = grad (h2 ! x)"
proof -
  from backward_unfold [OF wf r d, of flip] obtain topo where
    b: "backward depth flip rt h = Some (run_closures (rev topo) (seed rt h) [])"
    and t: "distinct topo" "set topo = reach h rt" "topo \<noteq> []" "last topo = rt"
    by blast
  define topo0 where "topo0 = butlast topo"
  from t(3,4) have topo: "topo = topo0 @ [rt]"
    using append_butlast_last_id [of topo] by (simp add: topo0_def)
  with t(1,2) have rest: "set (rev topo0) \<subseteq> reach h rt - {rt}" by auto
  have sg: "same_graph h h2"
    using same_graph_trans [OF same_graph_seed run_closure_same [OF c]] .
  have bf: "backward_fn (seed rt h ! rt) = backward_fn (h ! rt)"
    using same_graph_seed [of h rt] by (simp add: same_graph_def)
  obtain res h' called where rc: "run_closures (rev topo0) h2 [rt] = (res, h', called)"
    by (cases "run_closures (rev topo0) h2 [rt]") auto
  have "\<forall>n\<in>set (rev topo0). x \<notin> set (targets (backward_fn (h2 ! n)))"
  proof
    fix n assume n: "n \<in> set (rev topo0)"
    with rest have nr: "n \<in> reach h rt - {rt}" by blast
    with only have "x \<notin> set (prev (h ! n))" by blast
    moreover from nr reach_bounded [OF wf r] r have "n < length h" by auto
    with wf have "set (targets (backward_fn (h ! n))) \<subseteq> set (prev (h ! n))"
      by (simp add: wf_heap_def)
    moreover from sg have "backward_fn (h2 ! n) = backward_fn (h ! n)"
      by (simp add: same_graph_def)
    ultimately show "x \<notin> set (targets (backward_fn (h2 ! n)))" by auto
  qed
  with rc have "grad (h' ! x) = grad (h2 ! x)" by (rule run_closures_frame)
  moreover from b topo c bf rc have "backward depth flip rt h = Some (res, h', called)"
    by simp
  ultimately show ?thesis by blast
qed

lemma only_root_consumes:
  assumes wf: "wf_heap h" and r: "r < length h" and x: "x < r"
    and others: "\<forall>c\<in>set (prev (h ! r)). c \<noteq> x \<longrightarrow> prev (h ! c) = []"
  shows "\<forall>n\<in>reach h r - {r}. x \<notin> set (prev (h ! n))"
proof
  fix n assume "n \<in> reach h r - {r}"
  then obtain c where c: "c \<in> set (prev (h ! r))" and n: "n \<in> reach h c"
    using reach_unfold [of h r] by auto
  show "x \<notin> set (prev (h ! n))"
  proof (cases "c = x")
    case True
    from x r have xl: "x < length h" by simp
    with n True reach_bounded [OF wf xl] have "n \<le> x" by auto
    with xl have "n < length h" by simp
    with wf have "\<forall>c\<in>set (prev (h ! n)). c < n" by (simp add: wf_heap_def)
    with \<open>n \<le> x\<close> show ?thesis by auto
  next
    case False
    with others c have e: "prev (h ! c) = []" by blast
    then have "reach h c = {c}" using reach_unfold [of h c] by simp
    with n e show ?thesis by simp
  qed
qed

subsection \<open>The example graphs\<close>

lemma square_plus_graph_eq:
  "square_plus_graph =
    [\<lparr>data = 3, grad = 0, backward_fn = NoOp, prev = [], op_tag = Tag '''', label = ''''\<rparr>,
     \<lparr>data = 9, grad = 0, backward_fn = BwMul 0 0 1, prev = [0], op_tag = Tag ''*'', label = ''''\<rparr>,
     \<lparr>data = 12, grad = 0, backward_fn = BwAdd 1 0 2, prev = [1, 0], op_tag = Tag ''+'', label = ''''\<rparr>]"
  by (simp add: square_plus_graph_def leaf_eq mul_v_Ref add_v_Ref)

lemma sqrt_zero_graph_eq:
  "sqrt_zero_graph =
    [\<lparr>data = 0, grad = 0, backward_fn = NoOp, prev = [], op_tag = Tag '''', label = ''''\<rparr>,
     \<lparr>data = 0, grad = 0, backward_fn = BwPow 0 (1 / 2) 1, prev = [0], op_tag = PowTag (1 / 2), label = ''''\<rparr>]"
  by (simp add: sqrt_zero_graph_def leaf_eq pow_v_def py_pow_def Value_init_def set_backward_def)

lemma two_leaves_eq:
  "two_leaves =
    [\<lparr>data = 5, grad = 0, backward_fn = NoOp, prev = [], op_tag = Tag '''', label = ''''\<rparr>,
     \<lparr>data = 2, grad = 0, backward_fn = NoOp, prev = [], op_tag = Tag '''', label = ''''\<rparr>]"
  by (simp add: two_leaves_def leaf_eq)

subsection \<open>Every heap that a program builds is well-formed\<close>

lemma rsub_v_eq_sub_v: "rsub_v self other h = sub_v self other h"
  by (simp add: rsub_v_def sub_v_def)

lemma operand_ok_iff: "operand_ok other h \<longleftrightarrow> (\<forall>b. other = Ref b \<longrightarrow> b < length h)"
  by (cases other) simp_all

lemma built_wf_heap: "built h \<Longrightarrow> wf_heap h"
proof (induction rule: built.induct)
  case built_empty
  show ?case by simp
next
  case (built_Value h children d tag lbl)
  then show ?case by (simp add: wf_heap_Value_init)
next
  case (built_tanh h x)
  then show ?case by (simp add: wf_heap_tanh_v)
next
  case (built_relu h x)
  then show ?case by (simp add: wf_heap_relu)
next
  case (built_sigmoid h x)
  then show ?case by (simp add: wf_heap_sigmoid)
next
  case (built_exp h x)
  then show ?case by (simp add: wf_heap_exp_v)
next
  case (built_add h x other)
  then show ?case by (simp add: wf_heap_add_v operand_ok_iff)
next
  case (built_pow h x e)
  then show ?case by (simp add: wf_heap_pow_v)
next
  case (built_mul h x other)
  then show ?case by (simp add: wf_heap_mul_v operand_ok_iff)
next
  case (built_rmul h x other)
  then show ?case by (simp add: rmul_v_def wf_heap_mul_v operand_ok_iff)
next
  case (built_radd h x other)
  then show ?case by (simp add: radd_v_def wf_heap_add_v operand_ok_iff)
next
  case (built_truediv h x other)
  then show ?case by (simp add: wf_heap_truediv_v)
next
  case (built_rtruediv h x other)
  then show ?case by (simp add: wf_heap_rtruediv_v)
next
  case (built_neg h x)
  then show ?case by (simp add: wf_heap_neg_v)
next
  case (built_sub h x other)
  then show ?case by (simp add: wf_heap_sub_v operand_ok_iff)
next
  case (built_rsub h x other)
  then show ?case by (simp add: rsub_v_eq_sub_v wf_heap_sub_v operand_ok_iff)
next
  case (built_backward h rt depth flip res h' called)
  then show ?case using wf_heap_backward by blast
qed

text \<open>The example graphs are heaps that a program builds.\<close>

lemma built_leaf: "built h \<Longrightarrow> built (snd (leaf c h))"
  by (simp add: leaf_def built_Value)

lemma built_square_plus_graph: "built square_plus_graph"
proof -
  have b0: "built (snd (leaf 3 []))" by (rule built_leaf [OF built_empty])
  have b1: "built (snd (mul_v 0 (Ref 0) (snd (leaf 3 []))))"
    using b0 by (rule built_mul) (simp_all add: leaf_eq)
  have "built (snd (add_v 1 (Ref 0) (snd (mul_v 0 (Ref 0) (snd (leaf 3 []))))))"
    using b1 by (rule built_add) (simp_all add: leaf_eq mul_v_Ref)
  then show ?thesis
    by (simp add: square_plus_graph_def leaf_eq mul_v_Ref add_v_Ref)
qed

lemma built_sqrt_zero_graph: "built sqrt_zero_graph"
proof -
  have b0: "built (snd (leaf 0 []))" by (rule built_leaf [OF built_empty])
  have "built (snd (pow_v 0 (Number (1 / 2)) (snd (leaf 0 []))))"
    using b0 by (rule built_pow) (simp add: leaf_eq)
  then show ?thesis by (simp add: sqrt_zero_graph_def leaf_eq)
qed

lemma built_two_leaves: "built two_leaves"
proof -
  have "built (snd (leaf 2 (snd (leaf 5 []))))"
    by (intro built_leaf built_empty)
  then show ?thesis by (simp add: two_leaves_def leaf_eq)
qed

lemma built_one_leaf: "built (snd (leaf c []))"
  by (rule built_leaf [OF built_empty])

subsection \<open>Subtraction of leaves\<close>

text \<open>
  What \<^verbatim>\<open>a - b\<close> builds, and the pass from it when \<^verbatim>\<open>a\<close> and \<^verbatim>\<open>b\<close> are leaves:
  five objects take part, and the pass is evaluated for every iteration order.
\<close>

lemma sub_v_Ref_eq:
  "a < length h \<Longrightarrow> b < length h \<Longrightarrow>
   sub_v a (Ref b) h =
     (length h + 2,
      h @ [\<lparr>data = - 1, grad = 0, backward_fn = NoOp, prev = [], op_tag = Tag '''', label = ''''\<rparr>,
           \<lparr>data = data (h ! b) * - 1, grad = 0, backward_fn = BwMul b (length h) (length h + 1),
             prev = [b, length h], op_tag = Tag ''*'', label = ''''\<rparr>,
           \<lparr>data = data (h ! a) + data (h ! b) * - 1, grad = 0,
             backward_fn = BwAdd a (length h + 1) (length h + 2),
             prev = [a, length h + 1], op_tag = Tag ''+'', label = ''''\<rparr>])"
  by (simp add: sub_v_def neg_v_def mul_v_Num leaf_eq mul_v_Ref add_v_Ref nth_append)

lemma sub_leaves:
  assumes a: "a < length h" and b: "b < length h" and ab: "a \<noteq> b"
    and la: "prev (h ! a) = []" "backward_fn (h ! a) = NoOp"
    and lb: "prev (h ! b) = []" "backward_fn (h ! b) = NoOp"
  shows "(let (r, hs) = sub_v a (Ref b) h
          in \<exists>hf called. backward (3 + k) flip r hs = Some (Inr (), hf, called) \<and>
               grad (hf ! a) = grad (h ! a) + 1 \<and> grad (hf ! b) = grad (h ! b) - 1)"
  using a b ab la lb
  apply (simp add: sub_v_Ref_eq)
  apply (simp add: backward_def seed_def iter_prev_def add_grad_def nth_append
      list_update_append eval_nat_numeral Let_def)
  done

lemma sub_leaf_same:
  assumes a: "a < length h"
    and la: "prev (h ! a) = []" "backward_fn (h ! a) = NoOp"
  shows "(let (r, hs) = sub_v a (Ref a) h
          in \<exists>hf called. backward (3 + k) flip r hs = Some (Inr (), hf, called) \<and>
               grad (hf ! a) = grad (h ! a))"
  using a la
  apply (simp add: sub_v_Ref_eq)
  apply (simp add: backward_def seed_def iter_prev_def add_grad_def nth_append
      list_update_append eval_nat_numeral Let_def)
  done

lemma leaf_closure: "wf_heap h \<Longrightarrow> a < length h \<Longrightarrow> prev (h ! a) = [] \<Longrightarrow> backward_fn (h ! a) = NoOp"
proof -
  assume wf: "wf_heap h" and a: "a < length h" and p: "prev (h ! a) = []"
  from wf a have "set (targets (backward_fn (h ! a))) \<subseteq> set (prev (h ! a))"
    unfolding wf_heap_def by blast
  with p have "targets (backward_fn (h ! a)) = []" by simp
  then show ?thesis by (cases "backward_fn (h ! a)") simp_all
qed

section \<open>The claims\<close>

text \<open>
  Wherever a theorem below has a hypothesis on \<open>depth\<close>, it says that the nesting of
  \<^verbatim>\<open>buildTopo\<close> that the graph needs is allowed; the number of objects reachable from
  the root is enough. \<open>flip\<close> is arbitrary: the theorems hold for every order in which
  the operand sets are iterated.
\<close>

text \<open>
  C1. Accumulation over a shared operand. Whatever objects exist already, whatever the
  iteration order of the operand sets, and for any depth of at least 3: with
  \<^verbatim>\<open>x = Value(3.0)\<close> and \<^verbatim>\<open>y = x*x + x\<close>, the value of \<^verbatim>\<open>y\<close> is 12, and
  \<^verbatim>\<open>y.backward()\<close> returns normally, having called the closures of \<^verbatim>\<open>y\<close>, of
  \<^verbatim>\<open>x*x\<close> and of \<^verbatim>\<open>x\<close> in this order, and leaves the gradient of \<^verbatim>\<open>x\<close> at 7.
\<close>

theorem shared_operand_accumulates:
  "(let (x, h1) = leaf 3 h;
        (m, h2) = mul_v x (Ref x) h1;
        (y, h3) = add_v m (Ref x) h2
    in data (h3 ! y) = 12 \<and>
       (\<exists>h4. backward (3 + k) flip y h3 = Some (Inr (), h4, [y, m, x]) \<and>
             grad (h4 ! x) = 7))"
  apply (simp add: leaf_eq mul_v_Ref add_v_Ref nth_append)
  apply (simp add: backward_def seed_def iter_prev_def add_grad_def nth_append
      list_update_append eval_nat_numeral Let_def)
  done

text \<open>
  Against C2 as it is stated: the pass does not always reach every closure. With
  \<^verbatim>\<open>x = Value(0.0)\<close> and
  \<^verbatim>\<open>y = x**0.5\<close>, the value of \<^verbatim>\<open>y\<close> is 0, and \<^verbatim>\<open>y.backward()\<close> calls the closure
  of \<^verbatim>\<open>y\<close>, which evaluates \<^verbatim>\<open>0.0 ** -0.5\<close> and raises \<^verbatim>\<open>ZeroDivisionError\<close>: the
  closure of \<^verbatim>\<open>x\<close>, which is reachable from \<^verbatim>\<open>y\<close>, is never called.
\<close>

theorem pow_closure_ends_pass:
  "built sqrt_zero_graph \<and> 0 \<in> reach sqrt_zero_graph 1 \<and>
   backward 2 (\<lambda>v. False) 1 sqrt_zero_graph = Some (Inl ZeroDivisionError, seed 1 sqrt_zero_graph, [1])"
proof -
  have "0 \<in> reach sqrt_zero_graph 1"
    by (rule reach_step [OF reach_root]) (simp add: sqrt_zero_graph_eq)
  moreover have "backward 2 (\<lambda>v. False) 1 sqrt_zero_graph =
      Some (Inl ZeroDivisionError, seed 1 sqrt_zero_graph, [1])"
    by (simp add: sqrt_zero_graph_eq backward_def seed_def iter_prev_def eval_nat_numeral
        py_pow_def Let_def)
  ultimately show ?thesis using built_sqrt_zero_graph by simp
qed

text \<open>
  C2, amended. On a heap built by the operations, \<^verbatim>\<open>backward\<close> assigns 1 to the
  gradient of the root, and \<^verbatim>\<open>buildTopo\<close> yields a list \<open>topo\<close> without repetition of
  exactly the objects reachable from the root, the root last. The closures are called
  along the reverse of \<open>topo\<close>, root first, every object before its operands, so after
  every reachable object that consumes it. Each closure is called at most once; all of
  them are called when the pass returns normally; a closure that raises ends the pass,
  it is the last one called, and it is one that \<^verbatim>\<open>__pow__\<close> made.
\<close>

theorem backward_schedule:
  assumes wf: "wf_heap h" and r: "rt < length h" and d: "card (reach h rt) < depth"
  shows "\<exists>topo res h' called rest.
           buildTopo depth (seed rt h) flip rt ({}, []) = Some (set topo, topo) \<and>
           grad (seed rt h ! rt) = 1 \<and>
           backward depth flip rt h = Some (res, h', called) \<and>
           run_closures (rev topo) (seed rt h) [] = (res, h', called) \<and>
           distinct topo \<and> set topo = reach h rt \<and> hd (rev topo) = rt \<and>
           operands_later h (rev topo) \<and>
           rev topo = called @ rest \<and> (res = Inr () \<longrightarrow> rest = []) \<and>
           (\<forall>e. res = Inl e \<longrightarrow>
              called \<noteq> [] \<and> run_closure (backward_fn (h' ! last called)) h' = Inl e \<and>
              (\<exists>self other out. backward_fn (h' ! last called) = BwPow self other out))"
proof -
  from backward_unfold [OF wf r d, of flip] obtain topo where
    t: "buildTopo depth (seed rt h) flip rt ({}, []) = Some (set topo, topo)"
      "backward depth flip rt h = Some (run_closures (rev topo) (seed rt h) [])"
      "distinct topo" "set topo = reach h rt" "operands_first h topo"
      "topo \<noteq> []" "last topo = rt"
    by blast
  obtain res h' called where rc: "run_closures (rev topo) (seed rt h) [] = (res, h', called)"
    by (cases "run_closures (rev topo) (seed rt h) []") auto
  from run_closures_outcome [OF rc] obtain rest where
    o: "rev topo = called @ rest" "res = Inr () \<longrightarrow> rest = []"
      "\<forall>e. res = Inl e \<longrightarrow> called \<noteq> [] \<and> run_closure (backward_fn (h' ! last called)) h' = Inl e"
    by auto
  from o(3) have p: "\<forall>e. res = Inl e \<longrightarrow>
      (\<exists>self other out. backward_fn (h' ! last called) = BwPow self other out)"
    using only_pow_raises by blast
  have hd: "hd (rev topo) = rt" using t(6,7) by (simp add: hd_rev)
  have ol: "operands_later h (rev topo)" using t(5) by (rule operands_later_rev)
  have g: "grad (seed rt h ! rt) = 1" using r by (rule grad_seed_root)
  have b: "backward depth flip rt h = Some (res, h', called)" using t(2) rc by simp
  have "buildTopo depth (seed rt h) flip rt ({}, []) = Some (set topo, topo) \<and>
        grad (seed rt h ! rt) = 1 \<and>
        backward depth flip rt h = Some (res, h', called) \<and>
        run_closures (rev topo) (seed rt h) [] = (res, h', called) \<and>
        distinct topo \<and> set topo = reach h rt \<and> hd (rev topo) = rt \<and>
        operands_later h (rev topo) \<and>
        rev topo = called @ rest \<and> (res = Inr () \<longrightarrow> rest = []) \<and>
        (\<forall>e. res = Inl e \<longrightarrow>
           called \<noteq> [] \<and> run_closure (backward_fn (h' ! last called)) h' = Inl e \<and>
           (\<exists>self other out. backward_fn (h' ! last called) = BwPow self other out))"
    using t(1,3,4) g b rc hd ol o p by simp
  then show ?thesis by (intro exI)
qed

theorem backward_schedule_witness:
  "built square_plus_graph \<and> wf_heap square_plus_graph \<and>
   2 < length square_plus_graph \<and>
   card (reach square_plus_graph 2) < 4 \<and>
   (\<exists>topo res h' called.
      buildTopo 4 (seed 2 square_plus_graph) (\<lambda>v. False) 2 ({}, []) = Some (set topo, topo) \<and>
      backward 4 (\<lambda>v. False) 2 square_plus_graph = Some (res, h', called) \<and>
      distinct topo \<and> set topo = reach square_plus_graph 2 \<and> hd (rev topo) = 2 \<and>
      operands_later square_plus_graph (rev topo))"
proof -
  have wf: "wf_heap square_plus_graph"
    using built_square_plus_graph by (rule built_wf_heap)
  have r: "2 < length square_plus_graph" by (simp add: square_plus_graph_eq)
  have d: "card (reach square_plus_graph 2) < 4"
    using card_reach_le [OF wf r] by simp
  from backward_schedule [OF wf r d, of "\<lambda>v. False"]
  show ?thesis using built_square_plus_graph wf r d by blast
qed

text \<open>
  C3. \<^verbatim>\<open>__pow__\<close> with an exponent that is not a number (a \<^verbatim>\<open>Value\<close> or any other
  object) raises the \<^verbatim>\<open>AssertionError\<close> of its first line, which is the spec's
  InvalidOperand, and the heap afterwards is the heap before: no field of any object
  has changed and no object has been created.
\<close>

theorem pow_rejects_non_number:
  "\<not> is_number e \<Longrightarrow> pow_v x e h = (Inl AssertionError, h)"
  by (cases e) (simp_all add: pow_v_def)

theorem pow_rejects_non_number_witness:
  "\<not> is_number (ValueRef 0) \<and>
   pow_v 0 (ValueRef 0) (snd (leaf 2 [])) = (Inl AssertionError, snd (leaf 2 []))"
  using pow_rejects_non_number [of "ValueRef 0" 0 "snd (leaf 2 [])"] by simp

text \<open>
  C4. \<^verbatim>\<open>2.0 - x\<close> with \<^verbatim>\<open>x = Value(3.0)\<close> goes to \<^verbatim>\<open>x.__rsub__(2.0)\<close>, whose body
  computes \<^verbatim>\<open>x + (-2.0)\<close>: the value of the result is 1, not 2 minus 3.
\<close>

theorem rsub_subtracts_the_left_operand:
  "(let (x, h1) = leaf 3 []; (r, h2) = rsub_v x (Num 2) h1 in data (h2 ! r)) = 1"
  by (simp add: rsub_v_def add_v_Num leaf_eq add_v_Ref nth_append)

text \<open>
  C5. For an object \<^verbatim>\<open>x\<close> of a heap built by the operations, the value of
  \<^verbatim>\<open>r = x.relu()\<close> is that of \<^verbatim>\<open>x\<close> when it is positive and 0 otherwise. Called
  in any state of the graph, the closure of \<^verbatim>\<open>r\<close> adds to the gradient of \<^verbatim>\<open>x\<close> the
  gradient of \<^verbatim>\<open>r\<close> when the value of \<^verbatim>\<open>r\<close> is positive, and 0 otherwise. After
  \<^verbatim>\<open>r.backward()\<close>, however it ends, the gradient of \<^verbatim>\<open>x\<close> is what it was plus 1
  or 0 accordingly. So when the value of \<^verbatim>\<open>x\<close> is 0 and its gradient was 0, as it
  is from construction until a pass reaches the object, the value of \<^verbatim>\<open>r\<close> is 0 and
  the gradient of \<^verbatim>\<open>x\<close> is 0 afterwards.
\<close>

theorem relu_value_and_gradient:
  assumes wf: "wf_heap h" and x: "x < length h" and d: "Suc (length h) < depth"
  shows "(let (r, h1) = relu x h
          in data (h1 ! r) = (if data (h ! x) > 0 then data (h ! x) else 0) \<and>
             (\<forall>s. same_graph h1 s \<longrightarrow>
                (\<exists>s'. run_closure (backward_fn (h1 ! r)) s = Inr s' \<and>
                      grad (s' ! x) =
                        grad (s ! x) + (if data (h1 ! r) > 0 then grad (s ! r) else 0))) \<and>
             (\<exists>res h2 called.
                backward depth flip r h1 = Some (res, h2, called) \<and>
                grad (h2 ! x) = grad (h ! x) + (if data (h1 ! r) > 0 then 1 else 0) \<and>
                (data (h ! x) = 0 \<and> grad (h ! x) = 0 \<longrightarrow>
                   data (h1 ! r) = 0 \<and> grad (h2 ! x) = 0)))"
proof -
  define nd where "nd = \<lparr>data = (if data (h ! x) < 0 then 0 else data (h ! x)), grad = 0,
      backward_fn = BwRelu x (length h), prev = [x], op_tag = Tag ''ReLU'', label = ''''\<rparr>"
  define h1 where "h1 = h @ [nd]"
  have re: "relu x h = (length h, h1)" by (simp add: relu_eq h1_def nd_def)
  have nth_r: "h1 ! length h = nd" by (simp add: h1_def)
  have nth_x: "h1 ! x = h ! x" using x by (simp add: h1_def nth_append)
  have wf1: "wf_heap h1"
    using wf x unfolding h1_def by (intro wf_heap_snoc) (simp_all add: nd_def)
  have r1: "length h < length h1" by (simp add: h1_def)
  have d1: "card (reach h1 (length h)) < depth"
    using card_reach_le [OF wf1 r1] d by simp
  have only: "\<forall>n\<in>reach h1 (length h) - {length h}. x \<notin> set (prev (h1 ! n))"
    using wf1 r1 x by (rule only_root_consumes) (simp add: nth_r nd_def)
  have val: "data nd = (if data (h ! x) > 0 then data (h ! x) else 0)"
    by (simp add: nd_def)
  have clo: "\<exists>s'. run_closure (backward_fn (h1 ! length h)) s = Inr s' \<and>
      grad (s' ! x) = grad (s ! x) + (if data nd > 0 then grad (s ! length h) else 0)"
    if sg: "same_graph h1 s" for s
  proof -
    from sg x have xs: "x < length s" by (simp add: same_graph_def h1_def)
    from sg have "data (s ! length h) = data nd" by (simp add: same_graph_def nth_r)
    with xs show ?thesis by (simp add: nth_r nd_def grad_add_grad_same)
  qed
  from clo [OF same_graph_seed [of h1 "length h"]] obtain h2 where
    c: "run_closure (backward_fn (h1 ! length h)) (seed (length h) h1) = Inr h2" and
    g: "grad (h2 ! x) = grad (seed (length h) h1 ! x) +
          (if data nd > 0 then grad (seed (length h) h1 ! length h) else 0)"
    by blast
  from g r1 x have g2: "grad (h2 ! x) = grad (h ! x) + (if data nd > 0 then 1 else 0)"
    by (simp add: grad_seed_root grad_seed_other nth_x)
  from backward_operand_grad [OF wf1 r1 d1 only c, of flip] g2 obtain res h3 called where
    b: "backward depth flip (length h) h1 = Some (res, h3, called)" and
    g3: "grad (h3 ! x) = grad (h ! x) + (if data nd > 0 then 1 else 0)"
    by auto
  from b g3 val clo show ?thesis
    by (simp add: re nth_r)
qed

theorem relu_value_and_gradient_witness:
  "built (snd (leaf 0 [])) \<and> wf_heap (snd (leaf 0 [])) \<and>
   0 < length (snd (leaf 0 [])) \<and>
   Suc (length (snd (leaf 0 []))) < 3 \<and>
   (let (r, h1) = relu 0 (snd (leaf 0 []))
    in data (h1 ! r) = 0 \<and>
       (\<exists>res h2 called.
          backward 3 (\<lambda>v. False) r h1 = Some (res, h2, called) \<and> grad (h2 ! 0) = 0))"
proof -
  have bt: "built (snd (leaf 0 []))" by (rule built_one_leaf)
  then have wf: "wf_heap (snd (leaf 0 []))" by (rule built_wf_heap)
  have x: "0 < length (snd (leaf 0 []))" by (simp add: leaf_eq)
  have d: "Suc (length (snd (leaf 0 []))) < 3" by (simp add: leaf_eq)
  have v: "data (snd (leaf 0 []) ! 0) = 0" "grad (snd (leaf 0 []) ! 0) = 0"
    by (simp_all add: leaf_eq)
  from relu_value_and_gradient [OF wf x d, of "\<lambda>v. False"] v
  show ?thesis using bt wf x d
    by (auto simp: case_prod_beta Let_def)
qed

text \<open>
  C6. For objects \<^verbatim>\<open>a\<close> and \<^verbatim>\<open>b\<close> of a heap built by the operations, \<^verbatim>\<open>a - b\<close>
  and \<^verbatim>\<open>a + (-b)\<close>, each built from that heap, have the same value, the value of
  \<^verbatim>\<open>a\<close> minus that of \<^verbatim>\<open>b\<close>; a backward pass from either result ends, and under
  the same iteration order of the operand sets the two leave \<^verbatim>\<open>a\<close> with the same
  gradient and \<^verbatim>\<open>b\<close> with the same gradient. When \<^verbatim>\<open>a\<close> and \<^verbatim>\<open>b\<close> are leaves,
  as sampled values are, the two passes return normally and agree under any two
  iteration orders \<open>flip\<close> and \<open>flip'\<close>: the gradient of \<^verbatim>\<open>a\<close> has grown by 1 and
  that of \<^verbatim>\<open>b\<close> by -1, or both by 0 when \<^verbatim>\<open>a\<close> and \<^verbatim>\<open>b\<close> are the same object.
\<close>

theorem sub_is_add_of_neg:
  assumes wf: "wf_heap h" and a: "a < length h" and b: "b < length h"
    and d: "length h + 3 < depth"
  shows "(let (r, hs) = sub_v a (Ref b) h;
              (n, h1) = neg_v b h;
              (r', ha) = add_v a (Ref n) h1
          in data (hs ! r) = data (ha ! r') \<and>
             data (hs ! r) = data (h ! a) - data (h ! b) \<and>
             (\<exists>res hf called res' hf' called'.
                backward depth flip r hs = Some (res, hf, called) \<and>
                backward depth flip r' ha = Some (res', hf', called') \<and>
                grad (hf ! a) = grad (hf' ! a) \<and> grad (hf ! b) = grad (hf' ! b)) \<and>
             (prev (h ! a) = [] \<and> prev (h ! b) = [] \<longrightarrow>
                (\<exists>hf called hf' called'.
                   backward depth flip r hs = Some (Inr (), hf, called) \<and>
                   backward depth flip' r' ha = Some (Inr (), hf', called') \<and>
                   grad (hf ! a) = grad (hf' ! a) \<and> grad (hf ! b) = grad (hf' ! b) \<and>
                   grad (hf ! a) = grad (h ! a) + (if a = b then 0 else 1) \<and>
                   grad (hf ! b) = grad (h ! b) - (if a = b then 0 else 1))))"
proof -
  obtain n h1 where n: "neg_v b h = (n, h1)" by (cases "neg_v b h")
  obtain r ha where r: "add_v a (Ref n) h1 = (r, ha)" by (cases "add_v a (Ref n) h1")
  have s: "sub_v a (Ref b) h = (r, ha)" by (simp add: sub_v_def n r)
  from n have n_eq: "n = Suc (length h)" and h1_len: "length h1 = length h + 2"
    and wf1: "wf_heap h1"
    using wf_heap_mul_v [OF wf b, of "Num (- 1)"]
    by (auto simp: neg_v_def mul_v_Num leaf_eq mul_v_Ref)
  from n a b have d1: "data (h1 ! a) = data (h ! a)" "data (h1 ! n) = - data (h ! b)"
    by (auto simp: neg_v_def mul_v_Num leaf_eq mul_v_Ref nth_append)
  from r have r_eq: "r = length h1" and val: "data (ha ! r) = data (h1 ! a) + data (h1 ! n)"
    by (auto simp: add_v_Ref)
  have wfa: "wf_heap ha"
    using wf_heap_add_v_Ref [OF wf1, of a n] a n_eq h1_len r by simp
  have rl: "r < length ha" using r by (auto simp: add_v_Ref)
  have "Suc r < depth" using r_eq h1_len d by simp
  from backward_enough [OF wfa rl this, of flip] obtain res hf called where
    bw: "backward depth flip r ha = Some (res, hf, called)" by blast
  define k where "k = depth - 3"
  have k: "depth = 3 + k" using d by (simp add: k_def)
  have leaves: "\<exists>hf called hf' called'.
                   backward depth flip r ha = Some (Inr (), hf, called) \<and>
                   backward depth flip' r ha = Some (Inr (), hf', called') \<and>
                   grad (hf ! a) = grad (hf' ! a) \<and> grad (hf ! b) = grad (hf' ! b) \<and>
                   grad (hf ! a) = grad (h ! a) + (if a = b then 0 else 1) \<and>
                   grad (hf ! b) = grad (h ! b) - (if a = b then 0 else 1)"
    if pa: "prev (h ! a) = []" and pb: "prev (h ! b) = []"
  proof -
    from wf a pa have ca: "backward_fn (h ! a) = NoOp" by (rule leaf_closure)
    from wf b pb have cb: "backward_fn (h ! b) = NoOp" by (rule leaf_closure)
    show ?thesis
    proof (cases "a = b")
      case True
      from sub_leaf_same [OF a pa ca, of k flip] s True k obtain hf called where
        1: "backward depth flip r ha = Some (Inr (), hf, called)" "grad (hf ! a) = grad (h ! a)"
        by auto
      from sub_leaf_same [OF a pa ca, of k flip'] s True k obtain hf' called' where
        2: "backward depth flip' r ha = Some (Inr (), hf', called')" "grad (hf' ! a) = grad (h ! a)"
        by auto
      from 1 2 True show ?thesis by simp
    next
      case False
      from sub_leaves [OF a b False pa ca pb cb, of k flip] s k obtain hf called where
        1: "backward depth flip r ha = Some (Inr (), hf, called)"
          "grad (hf ! a) = grad (h ! a) + 1" "grad (hf ! b) = grad (h ! b) - 1"
        by auto
      from sub_leaves [OF a b False pa ca pb cb, of k flip'] s k obtain hf' called' where
        2: "backward depth flip' r ha = Some (Inr (), hf', called')"
          "grad (hf' ! a) = grad (h ! a) + 1" "grad (hf' ! b) = grad (h ! b) - 1"
        by auto
      from 1 2 False show ?thesis by simp
    qed
  qed
  have c1: "data (ha ! r) = data (h ! a) - data (h ! b)" using val d1 by simp
  have c2: "\<exists>res hf called res' hf' called'.
                backward depth flip r ha = Some (res, hf, called) \<and>
                backward depth flip r ha = Some (res', hf', called') \<and>
                grad (hf ! a) = grad (hf' ! a) \<and> grad (hf ! b) = grad (hf' ! b)"
    using bw by (intro exI [of _ res] exI [of _ hf] exI [of _ called]) simp
  have c3: "prev (h ! a) = [] \<and> prev (h ! b) = [] \<longrightarrow>
                (\<exists>hf called hf' called'.
                   backward depth flip r ha = Some (Inr (), hf, called) \<and>
                   backward depth flip' r ha = Some (Inr (), hf', called') \<and>
                   grad (hf ! a) = grad (hf' ! a) \<and> grad (hf ! b) = grad (hf' ! b) \<and>
                   grad (hf ! a) = grad (h ! a) + (if a = b then 0 else 1) \<and>
                   grad (hf ! b) = grad (h ! b) - (if a = b then 0 else 1))"
    using leaves by (intro impI) (elim conjE)
  show ?thesis
    unfolding s n r Let_def prod.case
    by (intro conjI refl c1 c2 c3)
qed

theorem sub_is_add_of_neg_witness:
  "built two_leaves \<and> wf_heap two_leaves \<and>
   0 < length two_leaves \<and> 1 < length two_leaves \<and>
   length two_leaves + 3 < 6 \<and>
   (let (r, hs) = sub_v 0 (Ref 1) two_leaves;
        (n, h1) = neg_v 1 two_leaves;
        (r', ha) = add_v 0 (Ref n) h1
    in data (hs ! r) = data (ha ! r') \<and> data (hs ! r) = 3 \<and>
       (\<exists>hf called hf' called'.
          backward 6 (\<lambda>v. False) r hs = Some (Inr (), hf, called) \<and>
          backward 6 (\<lambda>v. True) r' ha = Some (Inr (), hf', called') \<and>
          grad (hf ! 0) = 1 \<and> grad (hf' ! 0) = 1 \<and>
          grad (hf ! 1) = - 1 \<and> grad (hf' ! 1) = - 1))"
proof -
  have a: "0 < length two_leaves" and b: "1 < length two_leaves"
    and d: "length two_leaves + 3 < 6"
    by (simp_all add: two_leaves_eq)
  have v: "data (two_leaves ! 0) - data (two_leaves ! 1) = 3"
    "prev (two_leaves ! 0) = []" "prev (two_leaves ! 1) = []"
    "grad (two_leaves ! 0) = 0" "grad (two_leaves ! 1) = 0"
    by (simp_all add: two_leaves_eq)
  have wf: "wf_heap two_leaves" using built_two_leaves by (rule built_wf_heap)
  from sub_is_add_of_neg [OF wf a b d, of "\<lambda>v. False" "\<lambda>v. True"] v
  show ?thesis using built_two_leaves wf a b d
    by (auto simp: case_prod_beta Let_def)
qed

text \<open>
  C7. For an object \<^verbatim>\<open>x\<close> of a heap built by the operations, \<^verbatim>\<open>r = x + 0\<close> has
  the value of \<^verbatim>\<open>x\<close>; the closure of \<^verbatim>\<open>r\<close>, called in any state of the graph, adds
  to the gradient of \<^verbatim>\<open>x\<close> once the gradient of \<^verbatim>\<open>r\<close>; and after
  \<^verbatim>\<open>r.backward()\<close>, however it ends, the gradient of \<^verbatim>\<open>x\<close> is what it was plus 1.
  The same holds of \<^verbatim>\<open>r = x * 1\<close>.
\<close>

theorem identities_pass_gradient_through:
  assumes wf: "wf_heap h" and x: "x < length h" and d: "Suc (Suc (length h)) < depth"
  shows "(let (r, h1) = add_v x (Num 0) h
          in data (h1 ! r) = data (h ! x) \<and>
             (\<forall>s. same_graph h1 s \<longrightarrow>
                (\<exists>s'. run_closure (backward_fn (h1 ! r)) s = Inr s' \<and>
                      grad (s' ! x) = grad (s ! x) + 1 * grad (s ! r))) \<and>
             (\<exists>res h2 called.
                backward depth flip r h1 = Some (res, h2, called) \<and>
                grad (h2 ! x) = grad (h ! x) + 1)) \<and>
         (let (r, h1) = mul_v x (Num 1) h
          in data (h1 ! r) = data (h ! x) \<and>
             (\<forall>s. same_graph h1 s \<longrightarrow>
                (\<exists>s'. run_closure (backward_fn (h1 ! r)) s = Inr s' \<and>
                      grad (s' ! x) = grad (s ! x) + 1 * grad (s ! r))) \<and>
             (\<exists>res h2 called.
                backward depth flip r h1 = Some (res, h2, called) \<and>
                grad (h2 ! x) = grad (h ! x) + 1))"
proof -
  let ?z = "length h" and ?r = "Suc (length h)"
  have part: "data (h1 ! ?r) = data (h ! x) \<and>
             (\<forall>s. same_graph h1 s \<longrightarrow>
                (\<exists>s'. run_closure (backward_fn (h1 ! ?r)) s = Inr s' \<and>
                      grad (s' ! x) = grad (s ! x) + 1 * grad (s ! ?r))) \<and>
             (\<exists>res h2 called.
                backward depth flip ?r h1 = Some (res, h2, called) \<and>
                grad (h2 ! x) = grad (h ! x) + 1)"
    if h1: "h1 = h @ [lf, nd]" and lf: "prev lf = []" "backward_fn lf = NoOp"
      and nd: "prev nd = [x, ?z]" "data nd = data (h ! x)"
      and bw: "backward_fn nd = BwAdd x ?z ?r \<or> (backward_fn nd = BwMul x ?z ?r \<and> data lf = 1)"
    for h1 lf nd
  proof -
    have nth_z: "h1 ! ?z = lf" and nth_r: "h1 ! ?r = nd" by (simp_all add: h1 nth_append)
    have nth_x: "h1 ! x = h ! x" using x by (simp add: h1 nth_append)
    have "wf_heap (h @ [lf])" using wf by (rule wf_heap_snoc) (simp_all add: lf)
    moreover have "\<forall>c\<in>set (prev nd). c < length (h @ [lf])" using x by (simp add: nd)
    moreover have "set (targets (backward_fn nd)) \<subseteq> set (prev nd)"
      using bw by (auto simp: nd)
    ultimately have "wf_heap ((h @ [lf]) @ [nd])" by (rule wf_heap_snoc)
    then have wf1: "wf_heap h1" by (simp add: h1)
    have r1: "?r < length h1" by (simp add: h1)
    have d1: "card (reach h1 ?r) < depth" using card_reach_le [OF wf1 r1] d by simp
    have xr: "x < ?r" using x by simp
    have only: "\<forall>n\<in>reach h1 ?r - {?r}. x \<notin> set (prev (h1 ! n))"
      using wf1 r1 xr by (rule only_root_consumes) (auto simp: nth_r nd nth_z lf)
    have xz: "x \<noteq> ?z" "x \<noteq> ?r" using x by simp_all
    have clo: "\<exists>s'. run_closure (backward_fn (h1 ! ?r)) s = Inr s' \<and>
        grad (s' ! x) = grad (s ! x) + 1 * grad (s ! ?r)" if sg: "same_graph h1 s" for s
    proof -
      from sg x have xs: "x < length s" by (simp add: same_graph_def h1)
      from sg have dz: "data (s ! ?z) = data lf" by (simp add: same_graph_def nth_z)
      from bw show ?thesis
      proof
        assume "backward_fn nd = BwAdd x ?z ?r"
        then show ?thesis using xs xz
          by (simp add: nth_r Let_def grad_add_grad_other grad_add_grad_same)
      next
        assume "backward_fn nd = BwMul x ?z ?r \<and> data lf = 1"
        then show ?thesis using xs xz dz
          by (simp add: nth_r Let_def grad_add_grad_other grad_add_grad_same)
      qed
    qed
    from clo [OF same_graph_seed [of h1 ?r]] obtain h2 where
      c: "run_closure (backward_fn (h1 ! ?r)) (seed ?r h1) = Inr h2" and
      g: "grad (h2 ! x) = grad (seed ?r h1 ! x) + 1 * grad (seed ?r h1 ! ?r)"
      by blast
    from g r1 xz have g2: "grad (h2 ! x) = grad (h ! x) + 1"
      by (simp add: grad_seed_root grad_seed_other nth_x)
    from backward_operand_grad [OF wf1 r1 d1 only c, of flip] g2
    have "\<exists>res h2 called. backward depth flip ?r h1 = Some (res, h2, called) \<and>
        grad (h2 ! x) = grad (h ! x) + 1"
      by auto
    with clo show ?thesis by (simp add: nth_r nd)
  qed
  have nx: "(h @ [lf]) ! x = h ! x" for lf using x by (simp add: nth_append)
  have a: "add_v x (Num 0) h = (?r, h @ [
      \<lparr>data = 0, grad = 0, backward_fn = NoOp, prev = [], op_tag = Tag '''', label = ''''\<rparr>,
      \<lparr>data = data (h ! x), grad = 0, backward_fn = BwAdd x ?z ?r, prev = [x, ?z],
        op_tag = Tag ''+'', label = ''''\<rparr>])"
    using x by (simp add: add_v_Num leaf_eq add_v_Ref nx)
  have m: "mul_v x (Num 1) h = (?r, h @ [
      \<lparr>data = 1, grad = 0, backward_fn = NoOp, prev = [], op_tag = Tag '''', label = ''''\<rparr>,
      \<lparr>data = data (h ! x), grad = 0, backward_fn = BwMul x ?z ?r, prev = [x, ?z],
        op_tag = Tag ''*'', label = ''''\<rparr>])"
    using x by (simp add: mul_v_Num leaf_eq mul_v_Ref nx)
  show ?thesis
    unfolding a m Let_def prod.case
    by (intro conjI part [OF refl]; simp)
qed

theorem identities_pass_gradient_through_witness:
  "built (snd (leaf 4 [])) \<and> wf_heap (snd (leaf 4 [])) \<and>
   0 < length (snd (leaf 4 [])) \<and>
   Suc (Suc (length (snd (leaf 4 [])))) < 4 \<and>
   (let (r, h1) = add_v 0 (Num 0) (snd (leaf 4 []))
    in data (h1 ! r) = 4 \<and>
       (\<exists>res h2 called.
          backward 4 (\<lambda>v. False) r h1 = Some (res, h2, called) \<and> grad (h2 ! 0) = 1)) \<and>
   (let (r, h1) = mul_v 0 (Num 1) (snd (leaf 4 []))
    in data (h1 ! r) = 4 \<and>
       (\<exists>res h2 called.
          backward 4 (\<lambda>v. False) r h1 = Some (res, h2, called) \<and> grad (h2 ! 0) = 1))"
proof -
  have bt: "built (snd (leaf 4 []))" by (rule built_one_leaf)
  then have wf: "wf_heap (snd (leaf 4 []))" by (rule built_wf_heap)
  have x: "0 < length (snd (leaf 4 []))" by (simp add: leaf_eq)
  have d: "Suc (Suc (length (snd (leaf 4 [])))) < 4" by (simp add: leaf_eq)
  have v: "data (snd (leaf 4 []) ! 0) = 4" "grad (snd (leaf 4 []) ! 0) = 0"
    by (simp_all add: leaf_eq)
  from identities_pass_gradient_through [OF wf x d, of "\<lambda>v. False"] v
  show ?thesis using bt wf x d
    by (simp add: case_prod_beta Let_def)
qed

text \<open>
  C8. For an object \<^verbatim>\<open>x\<close> whose value is 0, the value of \<^verbatim>\<open>x.sigmoid()\<close> is one half
  and the value of \<^verbatim>\<open>x.tanh()\<close> is 0.
\<close>

theorem activations_at_zero:
  "x < length h \<Longrightarrow> data (h ! x) = 0 \<Longrightarrow>
   (let (s, hs) = sigmoid x h in data (hs ! s)) = 1 / 2 \<and>
   (let (t, ht) = tanh_v x h in data (ht ! t)) = 0"
  by (simp add: sigmoid_def tanh_v_def Value_init_def set_backward_def Let_def)

theorem activations_at_zero_witness:
  "0 < length (snd (leaf 0 [])) \<and> data (snd (leaf 0 []) ! 0) = 0 \<and>
   (let (s, hs) = sigmoid 0 (snd (leaf 0 [])) in data (hs ! s)) = 1 / 2 \<and>
   (let (t, ht) = tanh_v 0 (snd (leaf 0 [])) in data (ht ! t)) = 0"
  using activations_at_zero [of 0 "snd (leaf 0 [])"] by (simp add: leaf_eq)

text \<open>
  C9. On a heap built by the operations, where operands are older than the objects
  made from them, \<^verbatim>\<open>backward\<close> from any object ends, normally or with the exception
  of a closure, once the depth allowed exceeds the number of objects reachable from the
  root. \<^verbatim>\<open>buildTopo\<close> visits exactly the reachable objects and appends each to
  \<^verbatim>\<open>topo\<close> once; no closure is called twice, and the closures called number at most
  the reachable objects, which are at most the root and the objects older than it.
\<close>

theorem backward_terminates:
  assumes wf: "wf_heap h" and r: "rt < length h" and d: "card (reach h rt) < depth"
  shows "\<exists>visited topo res h' called.
           buildTopo depth (seed rt h) flip rt ({}, []) = Some (visited, topo) \<and>
           visited = reach h rt \<and> length topo = card (reach h rt) \<and>
           backward depth flip rt h = Some (res, h', called) \<and>
           distinct called \<and> set called \<subseteq> reach h rt \<and>
           length called \<le> card (reach h rt) \<and> card (reach h rt) \<le> Suc rt"
proof -
  from backward_unfold [OF wf r d, of flip] obtain topo where
    t: "buildTopo depth (seed rt h) flip rt ({}, []) = Some (set topo, topo)"
      "backward depth flip rt h = Some (run_closures (rev topo) (seed rt h) [])"
      "distinct topo" "set topo = reach h rt"
    by blast
  obtain res h' called where rc: "run_closures (rev topo) (seed rt h) [] = (res, h', called)"
    by (cases "run_closures (rev topo) (seed rt h) []") auto
  from run_closures_called [OF rc] obtain rest where o: "rev topo = called @ rest" by auto
  from t(3) have "distinct (rev topo)" by simp
  with o have dc: "distinct called" by simp
  from o have "set called \<subseteq> set (rev topo)" by simp
  with t(4) have sc: "set called \<subseteq> reach h rt" by simp
  from t(3,4) have lt: "length topo = card (reach h rt)"
    using distinct_card [of topo] by simp
  from o have "length called \<le> length (rev topo)" by simp
  with lt have lc: "length called \<le> card (reach h rt)" by simp
  have b: "backward depth flip rt h = Some (res, h', called)" using t(2) rc by simp
  have "buildTopo depth (seed rt h) flip rt ({}, []) = Some (set topo, topo) \<and>
        set topo = reach h rt \<and> length topo = card (reach h rt) \<and>
        backward depth flip rt h = Some (res, h', called) \<and>
        distinct called \<and> set called \<subseteq> reach h rt \<and>
        length called \<le> card (reach h rt) \<and> card (reach h rt) \<le> Suc rt"
    using t(1,4) lt b dc sc lc card_reach_le [OF wf r] by simp
  then show ?thesis by (intro exI [of _ "set topo"] exI [of _ topo] exI)
qed

theorem backward_terminates_witness:
  "built square_plus_graph \<and> wf_heap square_plus_graph \<and>
   2 < length square_plus_graph \<and>
   card (reach square_plus_graph 2) < 4 \<and>
   (\<exists>visited topo res h' called.
      buildTopo 4 (seed 2 square_plus_graph) (\<lambda>v. True) 2 ({}, []) = Some (visited, topo) \<and>
      visited = reach square_plus_graph 2 \<and> length topo = card (reach square_plus_graph 2) \<and>
      backward 4 (\<lambda>v. True) 2 square_plus_graph = Some (res, h', called) \<and>
      length called \<le> card (reach square_plus_graph 2))"
proof -
  have wf: "wf_heap square_plus_graph"
    using built_square_plus_graph by (rule built_wf_heap)
  have r: "2 < length square_plus_graph" by (simp add: square_plus_graph_eq)
  have d: "card (reach square_plus_graph 2) < 4"
    using card_reach_le [OF wf r] by simp
  from backward_terminates [OF wf r d, of "\<lambda>v. True"]
  show ?thesis using built_square_plus_graph wf r d by blast
qed

text \<open>
  C10. Gradients accumulate over successive passes. With a new leaf \<^verbatim>\<open>x\<close> of any
  value and \<^verbatim>\<open>y = x + 1.0\<close>, the first \<^verbatim>\<open>y.backward()\<close> leaves the gradients of
  \<^verbatim>\<open>x\<close> and \<^verbatim>\<open>y\<close> at 1; the second one, run on the heap the first one left, assigns 1
  to the gradient of \<^verbatim>\<open>y\<close> again and adds to that of \<^verbatim>\<open>x\<close>, which becomes 2.
\<close>

theorem gradients_accumulate_across_passes:
  "(let (x, h1) = leaf v h;
        (y, h2) = add_v x (Num 1) h1
    in \<exists>h3 h4 called called'.
         backward (2 + k) flip y h2 = Some (Inr (), h3, called) \<and>
         grad (h3 ! x) = 1 \<and> grad (h3 ! y) = 1 \<and>
         backward (2 + k) flip y h3 = Some (Inr (), h4, called') \<and>
         grad (h4 ! x) = 2 \<and> grad (h4 ! y) = 1)"
  apply (simp add: add_v_Num leaf_eq add_v_Ref nth_append)
  apply (simp add: backward_def seed_def iter_prev_def add_grad_def nth_append
      list_update_append eval_nat_numeral Let_def)
  done

end
